theory Spec2Isabelle
  imports Main
begin

section \<open>Exceptions\<close>

text \<open>
  The exceptions a caller of \<^verbatim>\<open>Hdf5Iterator\<close> can observe. Python raises
  \<^verbatim>\<open>ValueError\<close> from four places: \<^verbatim>\<open>RandomState(seed)\<close> with a seed outside
  \<open>[0, 2\<^sup>3\<^sup>2 - 1]\<close>, \<^verbatim>\<open>rng.choice\<close> on an empty list, \<^verbatim>\<open>rng.randint(n)\<close> with
  \<^verbatim>\<open>n <= 0\<close>, and the last line of \<^verbatim>\<open>__next__\<close>
  (\<^verbatim>\<open>"Failed to find a slice. Slice size too big?"\<close>); the argument of the constructor
  tells them apart. \<^verbatim>\<open>H5Error\<close> stands for whatever the array file raises on a read.
\<close>

datatype value_error =
  Seed_out_of_range | Empty_choice | Low_ge_high | Failed_to_find_a_slice

datatype error = OSError | KeyError | IndexError | ValueError value_error | H5Error

section \<open>Arrays and the array file\<close>

text \<open>
  An n-dimensional array: its shape (one extent per dimension) and its elements by index.
  Datasets of the file and the slices returned to the caller are both arrays.
\<close>

record 'v ndarray =
  shape_of :: "nat list"
  elems :: "nat list \<Rightarrow> 'v"

text \<open>
  The file has one level of grouping: named groups, each holding named datasets, both in
  the file's enumeration order.
\<close>

type_synonym 'v h5file = "(string \<times> (string \<times> 'v ndarray) list) list"

definition h5_keys :: "'v h5file \<Rightarrow> string list" where
  "h5_keys f = map fst f"

definition h5_group_keys :: "'v h5file \<Rightarrow> string \<Rightarrow> string list" where
  "h5_group_keys f grp = (case map_of f grp of None \<Rightarrow> [] | Some members \<Rightarrow> map fst members)"

definition h5_paths :: "'v h5file \<Rightarrow> (string \<times> 'v ndarray) list" where
  "h5_paths f =
     concat (map (\<lambda>(grp, members). map (\<lambda>(item, d). (grp @ ''/'' @ item, d)) members) f)"

definition h5_getitem :: "'v h5file \<Rightarrow> string \<Rightarrow> 'v ndarray option" where
  "h5_getitem f key = map_of (h5_paths f) key"

section \<open>External collaborators\<close>

text \<open>
  What the class calls and does not define: opening the file (\<^verbatim>\<open>h5py.File(path, 'r')\<close>),
  the random source (\<^verbatim>\<open>np.random.RandomState(seed)\<close> for a seed it accepts, its
  \<^verbatim>\<open>choice\<close> and \<^verbatim>\<open>randint\<close>, each returning the drawn value and the advanced
  generator state), and
  the read of a rectangular sub-slice of a dataset (\<^verbatim>\<open>next_item[tuple(slices)]\<close>, a list
  of \<open>(start, stop)\<close> pairs). They are parameters of the model.
\<close>

record ('r, 'v) extern =
  h5py_File :: "string \<Rightarrow> error + 'v h5file"
  RandomState :: "int \<Rightarrow> 'r"
  choice :: "'r \<Rightarrow> string list \<Rightarrow> string \<times> 'r"
  randint :: "'r \<Rightarrow> nat \<Rightarrow> nat \<times> 'r"
  getitem :: "'v ndarray \<Rightarrow> (nat \<times> nat) list \<Rightarrow> error + 'v ndarray"

section \<open>The iterator\<close>

text \<open>
  The attributes \<^verbatim>\<open>__init__\<close> sets. An entry of \<open>shape\<close> or \<open>pos\<close> is \<open>None\<close> as in the
  source (full extent, random position) or a concrete non-negative integer.
\<close>

record ('r, 'v) Hdf5Iterator =
  hdf5_path :: string
  h5 :: "'v h5file"
  h5_groups :: "string list"
  h5_items :: "string list"
  rng :: 'r
  shape :: "nat option list"
  pos :: "nat option list"

text \<open>
  Line 37: \<^verbatim>\<open>np.random.RandomState(seed)\<close> raises \<^verbatim>\<open>ValueError\<close> for a seed that is
  negative or does not fit 32 bits.
\<close>

definition np_RandomState :: "('r, 'v) extern \<Rightarrow> int \<Rightarrow> error + 'r" where
  "np_RandomState E seed =
     (if 0 \<le> seed \<and> seed < 2 ^ 32 then Inr (RandomState E seed)
      else Inl (ValueError Seed_out_of_range))"

text \<open>
  \<^verbatim>\<open>__init__\<close>: the file is opened and its items are listed (lines 32--36), then the
  random source is seeded (line 37), then the shape and the position tuple are stored
  (lines 38--42). Nothing else is checked.
\<close>

definition Hdf5Iterator_init ::
  "('r, 'v) extern \<Rightarrow> string \<Rightarrow> nat option list \<Rightarrow> nat option list option \<Rightarrow> int
     \<Rightarrow> error + ('r, 'v) Hdf5Iterator" where
  "Hdf5Iterator_init E path shp p seed =
     (case h5py_File E path of
        Inl e \<Rightarrow> Inl e
      | Inr f \<Rightarrow>
          (case np_RandomState E seed of
             Inl e \<Rightarrow> Inl e
           | Inr r \<Rightarrow>
               Inr \<lparr> hdf5_path = path,
                     h5 = f,
                     h5_groups = h5_keys f,
                     h5_items =
                       concat (map (\<lambda>grp. map (\<lambda>item. grp @ ''/'' @ item) (h5_group_keys f grp))
                         (h5_keys f)),
                     rng = r,
                     shape = shp,
                     pos = (case p of Some q \<Rightarrow> q | None \<Rightarrow> map (\<lambda>dim. None) shp) \<rparr>))"

text \<open>
  Lines 53--56: every \<open>None\<close> of the requested shape is replaced by the item's extent at
  the same index; the index is out of range for an item with fewer dimensions.
\<close>

fun resolve_from :: "nat \<Rightarrow> nat option list \<Rightarrow> nat list \<Rightarrow> error + nat list" where
  "resolve_from j [] have = Inr []"
| "resolve_from j (dim # rest) have =
     (case dim of
        None \<Rightarrow>
          if j < length have
          then (case resolve_from (Suc j) rest have of
                  Inl e \<Rightarrow> Inl e | Inr ds \<Rightarrow> Inr (have ! j # ds))
          else Inl IndexError
      | Some d \<Rightarrow>
          (case resolve_from (Suc j) rest have of
             Inl e \<Rightarrow> Inl e | Inr ds \<Rightarrow> Inr (d # ds)))"

definition resolve_shape :: "nat option list \<Rightarrow> nat list \<Rightarrow> error + nat list" where
  "resolve_shape spec have = resolve_from 0 spec have"

text \<open>Line 59: the slice is out of bounds when some wanted extent exceeds the item's.\<close>

definition out_of_bounds :: "nat list \<Rightarrow> nat list \<Rightarrow> bool" where
  "out_of_bounds have want =
     list_ex (\<lambda>(have_dim, want_dim). want_dim > have_dim) (zip have want)"

text \<open>
  Lines 66--69: the start of the slice on one dimension. \<^verbatim>\<open>randint(n)\<close> draws from
  \<open>[0, n)\<close> and raises for \<open>n \<le> 0\<close>, that is when the wanted extent exceeds the item's.
\<close>

definition slice_start ::
  "('r, 'v) extern \<Rightarrow> 'r \<Rightarrow> nat \<Rightarrow> nat \<Rightarrow> nat option \<Rightarrow> (error + nat) \<times> 'r" where
  "slice_start E r have_dim want_dim want_pos =
     (case want_pos of
        None \<Rightarrow>
          if have_dim < want_dim then (Inl (ValueError Low_ge_high), r)
          else (case randint E r (have_dim - want_dim + 1) of (v, r') \<Rightarrow> (Inr v, r'))
      | Some p \<Rightarrow> (Inr p, r))"

text \<open>Lines 64--71: one slice per triple of the three zipped sequences.\<close>

fun choose_slices ::
  "('r, 'v) extern \<Rightarrow> 'r \<Rightarrow> (nat \<times> nat \<times> nat option) list
     \<Rightarrow> (error + (nat \<times> nat) list) \<times> 'r" where
  "choose_slices E r [] = (Inr [], r)"
| "choose_slices E r ((have_dim, want_dim, want_pos) # rest) =
     (case slice_start E r have_dim want_dim want_pos of
        (Inl e, r1) \<Rightarrow> (Inl e, r1)
      | (Inr start, r1) \<Rightarrow>
          (case choose_slices E r1 rest of
             (Inl e, r2) \<Rightarrow> (Inl e, r2)
           | (Inr slices, r2) \<Rightarrow> (Inr ((start, start + want_dim) # slices), r2)))"

text \<open>
  One pass of the loop body up to the read (lines 49--71): it ends in \<^verbatim>\<open>continue\<close>,
  in an exception, or with the item and the slices to read from it.
\<close>

datatype 'v outcome = Continue | Raise error | Slice "'v ndarray" "(nat \<times> nat) list"

definition attempt ::
  "('r, 'v) extern \<Rightarrow> ('r, 'v) Hdf5Iterator \<Rightarrow> 'v outcome \<times> ('r, 'v) Hdf5Iterator" where
  "attempt E s =
     (if h5_items s = [] then (Raise (ValueError Empty_choice), s)
      else
        (case choice E (rng s) (h5_items s) of
           (key, r1) \<Rightarrow>
             (case h5_getitem (h5 s) key of
                None \<Rightarrow> (Raise KeyError, s\<lparr>rng := r1\<rparr>)
              | Some next_item \<Rightarrow>
                  (case resolve_shape (shape s) (shape_of next_item) of
                     Inl e \<Rightarrow> (Raise e, s\<lparr>rng := r1\<rparr>)
                   | Inr want \<Rightarrow>
                       if out_of_bounds (shape_of next_item) want then (Continue, s\<lparr>rng := r1\<rparr>)
                       else
                         (case choose_slices E r1
                                 (zip (shape_of next_item) (zip want (pos s))) of
                            (Inl e, r2) \<Rightarrow> (Raise e, s\<lparr>rng := r2\<rparr>)
                          | (Inr slices, r2) \<Rightarrow> (Slice next_item slices, s\<lparr>rng := r2\<rparr>))))))"

text \<open>
  \<^verbatim>\<open>__next__\<close>: at most \<open>num_tries = 500\<close> passes; the first pass that is not
  \<^verbatim>\<open>continue\<close>d returns the read of the slice or raises; after the last pass the
  \<^verbatim>\<open>ValueError\<close> is raised. The result comes with the iterator's state after the call.
\<close>

fun next_loop ::
  "('r, 'v) extern \<Rightarrow> ('r, 'v) Hdf5Iterator \<Rightarrow> nat
     \<Rightarrow> (error + 'v ndarray) \<times> ('r, 'v) Hdf5Iterator" where
  "next_loop E s 0 = (Inl (ValueError Failed_to_find_a_slice), s)"
| "next_loop E s (Suc n) =
     (case attempt E s of
        (Continue, s1) \<Rightarrow> next_loop E s1 n
      | (Raise e, s1) \<Rightarrow> (Inl e, s1)
      | (Slice next_item slices, s1) \<Rightarrow> (getitem E next_item slices, s1))"

definition num_tries :: nat where
  "num_tries = 500"

definition Hdf5Iterator_next ::
  "('r, 'v) extern \<Rightarrow> ('r, 'v) Hdf5Iterator
     \<Rightarrow> (error + 'v ndarray) \<times> ('r, 'v) Hdf5Iterator" where
  "Hdf5Iterator_next E s = next_loop E s num_tries"

text \<open>
  The same loop stopped before the read: the item and the slices the call settles on.
  \<open>next_loop\<close> is this followed by the read (lemma \<open>next_loop_find_slice\<close>).
\<close>

fun find_slice ::
  "('r, 'v) extern \<Rightarrow> ('r, 'v) Hdf5Iterator \<Rightarrow> nat
     \<Rightarrow> (error + 'v ndarray \<times> (nat \<times> nat) list) \<times> ('r, 'v) Hdf5Iterator" where
  "find_slice E s 0 = (Inl (ValueError Failed_to_find_a_slice), s)"
| "find_slice E s (Suc n) =
     (case attempt E s of
        (Continue, s1) \<Rightarrow> find_slice E s1 n
      | (Raise e, s1) \<Rightarrow> (Inl e, s1)
      | (Slice next_item slices, s1) \<Rightarrow> (Inr (next_item, slices), s1))"

text \<open>Driving the iterator: the results of \<open>n\<close> successive calls.\<close>

fun samples ::
  "('r, 'v) extern \<Rightarrow> ('r, 'v) Hdf5Iterator \<Rightarrow> nat \<Rightarrow> (error + 'v ndarray) list" where
  "samples E s 0 = []"
| "samples E s (Suc n) =
     (case Hdf5Iterator_next E s of (res, s1) \<Rightarrow> res # samples E s1 n)"

section \<open>Contracts of the collaborators\<close>

text \<open>
  What numpy documents of the random source: \<^verbatim>\<open>choice\<close> returns an element of a
  non-empty list, \<^verbatim>\<open>randint(n)\<close> a value of \<open>[0, n)\<close> for positive \<open>n\<close>.
\<close>

definition rng_contract :: "('r, 'v) extern \<Rightarrow> bool" where
  "rng_contract E \<longleftrightarrow>
     (\<forall>r xs. xs \<noteq> [] \<longrightarrow> fst (choice E r xs) \<in> set xs) \<and>
     (\<forall>r n. 0 < n \<longrightarrow> fst (randint E r n) < n)"

text \<open>
  A list of slices lies within an item when there are no more slices than dimensions and
  each is a range \<open>start \<le> stop \<le> extent\<close>. The shape of the rectangle it selects: the
  slices' lengths, then the item's extents on the dimensions no slice covers.
\<close>

definition within :: "nat list \<Rightarrow> (nat \<times> nat) list \<Rightarrow> bool" where
  "within have slices \<longleftrightarrow>
     length slices \<le> length have \<and>
     list_all (\<lambda>((start, stop), have_dim). start \<le> stop \<and> stop \<le> have_dim) (zip slices have)"

definition sliced_shape :: "nat list \<Rightarrow> (nat \<times> nat) list \<Rightarrow> nat list" where
  "sliced_shape have slices =
     map (\<lambda>(start, stop). stop - start) slices @ drop (length slices) have"

text \<open>
  What the read is relied on for: a request within the item is served, with the shape of
  the rectangle asked for. Nothing is assumed of a request that leaves the item.
\<close>

definition store_contract :: "('r, 'v) extern \<Rightarrow> bool" where
  "store_contract E \<longleftrightarrow>
     (\<forall>d slices. within (shape_of d) slices \<longrightarrow>
        (\<exists>a. getitem E d slices = Inr a \<and> shape_of a = sliced_shape (shape_of d) slices))"

text \<open>
  What is relied on of an array the read returns, dimension by dimension: it has the
  item's dimensions; on a dimension whose slice lies within the item it has the slice's
  length; on a dimension no slice covers it has the item's extent. Nothing is assumed of
  a dimension whose slice leaves the item, nor that the read returns.
\<close>

definition dimensionwise_read :: "('r, 'v) extern \<Rightarrow> bool" where
  "dimensionwise_read E \<longleftrightarrow>
     (\<forall>d slices a. getitem E d slices = Inr a \<longrightarrow>
        length (shape_of a) = length (shape_of d) \<and>
        (\<forall>i<length (shape_of d).
           (i < length slices \<longrightarrow>
              fst (slices ! i) \<le> snd (slices ! i) \<longrightarrow> snd (slices ! i) \<le> shape_of d ! i \<longrightarrow>
              shape_of a ! i = snd (slices ! i) - fst (slices ! i)) \<and>
           (length slices \<le> i \<longrightarrow> shape_of a ! i = shape_of d ! i)))"

text \<open>
  Every \<open>None\<close> of a requested shape falls on a dimension the item has (lines 55--56
  raise \<^verbatim>\<open>IndexError\<close> otherwise).
\<close>

definition wildcards_within :: "nat option list \<Rightarrow> nat list \<Rightarrow> bool" where
  "wildcards_within spec have \<longleftrightarrow>
     list_all (\<lambda>(k, dim). case dim of None \<Rightarrow> k < length have | Some d \<Rightarrow> True)
       (enumerate 0 spec)"

text \<open>A property of the shape of every item of the catalogue (each of which must resolve).\<close>

definition every_item :: "(nat list \<Rightarrow> bool) \<Rightarrow> ('r, 'v) Hdf5Iterator \<Rightarrow> bool" where
  "every_item P s \<longleftrightarrow>
     list_all (\<lambda>key. case h5_getitem (h5 s) key of None \<Rightarrow> False | Some d \<Rightarrow> P (shape_of d))
       (h5_items s)"

text \<open>
  An item fits a request when it has every dimension of the requested shape, each concrete
  extent is at most the item's, and each pinned position leaves room for the resolved
  extent.
\<close>

definition fits :: "nat option list \<Rightarrow> nat option list \<Rightarrow> nat list \<Rightarrow> bool" where
  "fits spec pspec have \<longleftrightarrow>
     length spec \<le> length have \<and>
     list_all
       (\<lambda>(have_dim, dim, p).
          (case dim of None \<Rightarrow> True | Some w \<Rightarrow> w \<le> have_dim) \<and>
          (case p of
             None \<Rightarrow> True
           | Some q \<Rightarrow> q + (case dim of None \<Rightarrow> have_dim | Some w \<Rightarrow> w) \<le> have_dim))
       (zip have (zip spec pspec))"

text \<open>The generator after \<open>k\<close> draws of an item and nothing else.\<close>

definition draws :: "('r, 'v) extern \<Rightarrow> string list \<Rightarrow> nat \<Rightarrow> 'r \<Rightarrow> 'r" where
  "draws E items k r = ((\<lambda>r'. snd (choice E r' items)) ^^ k) r"

section \<open>The read of h5py and a test fixture\<close>

text \<open>
  The read as h5py performs it on slices of step 1: each slice is cut to the extent of
  its dimension (as Python's \<^verbatim>\<open>slice.indices\<close> does), so a slice that leaves the dataset
  gives a shorter or an empty range and no exception; the dimensions no slice covers are
  read in full; more slices than dimensions are refused.
\<close>

definition clamp_slice :: "nat \<Rightarrow> nat \<times> nat \<Rightarrow> nat \<times> nat" where
  "clamp_slice have_dim sl = (min (fst sl) have_dim, min (snd sl) have_dim)"

definition h5py_getitem :: "'v ndarray \<Rightarrow> (nat \<times> nat) list \<Rightarrow> error + 'v ndarray" where
  "h5py_getitem d slices =
     (if length (shape_of d) < length slices then Inl H5Error
      else
        Inr \<lparr> shape_of = sliced_shape (shape_of d) (map2 clamp_slice (shape_of d) slices),
              elems =
                (\<lambda>idx. elems d
                   (map2 (+)
                      (map fst (map2 clamp_slice (shape_of d) slices) @ replicate (length idx) 0)
                      idx)) \<rparr>)"

text \<open>
  The file of the module's self-test, cut down: groups of two-dimensional datasets of
  shape \<open>(15, 20)\<close>; a second file with one three-dimensional dataset; an empty file; a
  counter as random source.
\<close>

definition test_array :: "nat list \<Rightarrow> int ndarray" where
  "test_array shp = \<lparr> shape_of = shp, elems = (\<lambda>idx. int (sum_list idx)) \<rparr>"

definition test_h5 :: "int h5file" where
  "test_h5 =
     [(''a'', [(''0'', test_array [15, 20]), (''1'', test_array [15, 20])]),
      (''b'', [(''0'', test_array [15, 20])])]"

definition cube_h5 :: "int h5file" where
  "cube_h5 = [(''a'', [(''0'', test_array [10, 15, 20])])]"

definition empty_h5 :: "int h5file" where
  "empty_h5 = []"

definition test_choice :: "nat \<Rightarrow> string list \<Rightarrow> string \<times> nat" where
  "test_choice r xs = (xs ! (r mod length xs), Suc r)"

definition test_randint :: "nat \<Rightarrow> nat \<Rightarrow> nat \<times> nat" where
  "test_randint r n = (r mod n, Suc r)"

definition test_E :: "(nat, int) extern" where
  "test_E =
     \<lparr> h5py_File =
         (\<lambda>path. if path = ''._test.h5'' \<or> path = ''copy.h5'' then Inr test_h5
                  else if path = ''cube.h5'' then Inr cube_h5
                  else if path = ''empty.h5'' then Inr empty_h5
                  else Inl OSError),
       RandomState = nat,
       choice = test_choice,
       randint = test_randint,
       getitem = h5py_getitem \<rparr>"

text \<open>The iterator \<^verbatim>\<open>__init__\<close> builds on a file of the fixture, seed 41.\<close>

definition test_iter ::
  "string \<Rightarrow> int h5file \<Rightarrow> nat option list \<Rightarrow> nat option list \<Rightarrow> (nat, int) Hdf5Iterator" where
  "test_iter path f shp p =
     \<lparr> hdf5_path = path, h5 = f, h5_groups = map fst f, h5_items = map fst (h5_paths f),
       rng = 41, shape = shp, pos = p \<rparr>"

section \<open>Properties of the parts\<close>

lemma next_loop_find_slice:
  "next_loop E s n =
     (case find_slice E s n of
        (Inl e, s1) \<Rightarrow> (Inl e, s1)
      | (Inr (next_item, slices), s1) \<Rightarrow> (getitem E next_item slices, s1))"
  by (induction n arbitrary: s) (auto split: prod.splits outcome.splits)

lemma resolve_from_Inr:
  "resolve_from j spec have = Inr want \<Longrightarrow>
     length want = length spec \<and>
     (\<forall>i<length spec.
        want ! i = (case spec ! i of None \<Rightarrow> have ! (j + i) | Some d \<Rightarrow> d) \<and>
        (spec ! i = None \<longrightarrow> j + i < length have))"
proof (induction spec arbitrary: j want)
  case Nil
  then show ?case by simp
next
  case (Cons dim rest)
  from Cons.prems obtain d ds where
    rec: "resolve_from (Suc j) rest have = Inr ds" and want: "want = d # ds"
    and d: "d = (case dim of None \<Rightarrow> have ! j | Some w \<Rightarrow> w)"
    and ok: "dim = None \<longrightarrow> j < length have"
    by (auto split: option.splits if_splits sum.splits)
  from Cons.IH [OF rec] have
    len: "length ds = length rest" and
    nth: "\<And>i. i < length rest \<Longrightarrow>
            ds ! i = (case rest ! i of None \<Rightarrow> have ! (Suc j + i) | Some w \<Rightarrow> w) \<and>
            (rest ! i = None \<longrightarrow> Suc j + i < length have)"
    by auto
  show ?case
  proof (intro conjI allI impI)
    show "length want = length (dim # rest)" using len want by simp
  next
    fix i assume "i < length (dim # rest)"
    then show "want ! i = (case (dim # rest) ! i of None \<Rightarrow> have ! (j + i) | Some d \<Rightarrow> d)"
      using want d nth by (cases i) (auto split: option.splits)
  next
    fix i assume "i < length (dim # rest)" "(dim # rest) ! i = None"
    then show "j + i < length have"
      using ok nth by (cases i) auto
  qed
qed

lemma resolve_from_total:
  "j + length spec \<le> length have \<Longrightarrow> \<exists>want. resolve_from j spec have = Inr want"
proof (induction spec arbitrary: j)
  case Nil
  then show ?case by simp
next
  case (Cons dim rest)
  then have "Suc j + length rest \<le> length have" by simp
  from Cons.IH [OF this] obtain ds where "resolve_from (Suc j) rest have = Inr ds" ..
  with Cons.prems show ?case by (cases dim) auto
qed

lemma resolve_from_error:
  "resolve_from j spec have = Inl e \<Longrightarrow> e = IndexError"
  by (induction spec arbitrary: j) (auto split: option.splits if_splits sum.splits)


lemma out_of_bounds_nth:
  "out_of_bounds have want \<longleftrightarrow> (\<exists>i. i < length have \<and> i < length want \<and> have ! i < want ! i)"
  by (auto simp: out_of_bounds_def list_ex_iff set_zip)

lemma slice_start_Inr:
  "slice_start E r h w p = (Inr start, r1) \<Longrightarrow>
     (\<forall>q. p = Some q \<longrightarrow> start = q \<and> r1 = r) \<and>
     (p = None \<longrightarrow> w \<le> h \<and> (start, r1) = randint E r (h - w + 1) \<and>
        (rng_contract E \<longrightarrow> start + w \<le> h))"
proof (cases p)
  case None
  assume st: "slice_start E r h w p = (Inr start, r1)"
  with None have wh: "w \<le> h" and v: "(start, r1) = randint E r (h - w + 1)"
    by (auto simp: slice_start_def split: if_splits prod.splits)
  from v have "start = fst (randint E r (h - w + 1))" by (metis fst_conv)
  then have "rng_contract E \<Longrightarrow> start < h - w + 1"
    unfolding rng_contract_def by simp
  with wh v None show ?thesis by auto
next
  case (Some q)
  assume "slice_start E r h w p = (Inr start, r1)"
  with Some show ?thesis by (simp add: slice_start_def)
qed

lemma choose_slices_Inr:
  "choose_slices E r ts = (Inr sl, r') \<Longrightarrow>
     length sl = length ts \<and>
     (\<forall>i<length ts.
        snd (sl ! i) = fst (sl ! i) + fst (snd (ts ! i)) \<and>
        (\<forall>q. snd (snd (ts ! i)) = Some q \<longrightarrow> fst (sl ! i) = q) \<and>
        (snd (snd (ts ! i)) = None \<longrightarrow>
           fst (snd (ts ! i)) \<le> fst (ts ! i) \<and>
           (rng_contract E \<longrightarrow> fst (sl ! i) + fst (snd (ts ! i)) \<le> fst (ts ! i))))"
proof (induction ts arbitrary: r sl)
  case Nil
  then show ?case by simp
next
  case (Cons t rest)
  obtain h w p where t: "t = (h, w, p)" by (cases t)
  from Cons.prems t obtain start r1 sl1 where
    st: "slice_start E r h w p = (Inr start, r1)" and
    rec: "choose_slices E r1 rest = (Inr sl1, r')" and
    sl: "sl = (start, start + w) # sl1"
    by (auto split: prod.splits sum.splits)
  note hd = slice_start_Inr [OF st]
  from Cons.IH [OF rec] have len: "length sl1 = length rest" by simp
  have "\<forall>i<length (t # rest).
        snd (sl ! i) = fst (sl ! i) + fst (snd ((t # rest) ! i)) \<and>
        (\<forall>q. snd (snd ((t # rest) ! i)) = Some q \<longrightarrow> fst (sl ! i) = q) \<and>
        (snd (snd ((t # rest) ! i)) = None \<longrightarrow>
           fst (snd ((t # rest) ! i)) \<le> fst ((t # rest) ! i) \<and>
           (rng_contract E \<longrightarrow> fst (sl ! i) + fst (snd ((t # rest) ! i)) \<le> fst ((t # rest) ! i)))"
  proof (intro allI impI)
    fix i assume i: "i < length (t # rest)"
    show "snd (sl ! i) = fst (sl ! i) + fst (snd ((t # rest) ! i)) \<and>
        (\<forall>q. snd (snd ((t # rest) ! i)) = Some q \<longrightarrow> fst (sl ! i) = q) \<and>
        (snd (snd ((t # rest) ! i)) = None \<longrightarrow>
           fst (snd ((t # rest) ! i)) \<le> fst ((t # rest) ! i) \<and>
           (rng_contract E \<longrightarrow> fst (sl ! i) + fst (snd ((t # rest) ! i)) \<le> fst ((t # rest) ! i)))"
    proof (cases i)
      case 0
      with hd sl t show ?thesis by simp
    next
      case (Suc k)
      with i have "k < length rest" by simp
      with Cons.IH [OF rec] Suc sl show ?thesis by simp
    qed
  qed
  moreover have "length sl = length (t # rest)" using len sl by simp
  ultimately show ?case by simp
qed

lemma choose_slices_total:
  "list_all (\<lambda>(h, w, p). w \<le> h) ts \<Longrightarrow> \<exists>sl r'. choose_slices E r ts = (Inr sl, r')"
proof (induction ts arbitrary: r)
  case Nil
  then show ?case by simp
next
  case (Cons t rest)
  obtain h w p where t: "t = (h, w, p)" by (cases t)
  with Cons.prems have wh: "w \<le> h" and rest: "list_all (\<lambda>(h, w, p). w \<le> h) rest" by auto
  from wh obtain start r1 where st: "slice_start E r h w p = (Inr start, r1)"
    by (cases p; cases "randint E r (h - w + 1)") (auto simp: slice_start_def)
  from Cons.IH [OF rest] obtain sl r' where "choose_slices E r1 rest = (Inr sl, r')" by blast
  with st t show ?case by simp
qed

lemma choose_slices_error:
  "choose_slices E r ts = (Inl e, r') \<Longrightarrow> e = ValueError Low_ge_high \<and> \<not> list_all (\<lambda>(h, w, p). w \<le> h) ts"
proof (induction ts arbitrary: r)
  case Nil
  then show ?case by simp
next
  case (Cons t rest)
  obtain h w p where t: "t = (h, w, p)" by (cases t)
  show ?case
  proof (cases "slice_start E r h w p")
    case (Pair res r1)
    show ?thesis
    proof (cases res)
      case (Inl e')
      with Pair Cons.prems t have "e = e'" by simp
      moreover from Inl Pair have "e' = ValueError Low_ge_high \<and> h < w"
        by (cases p) (auto simp: slice_start_def split: if_splits prod.splits)
      ultimately show ?thesis using t by auto
    next
      case (Inr start)
      with Pair Cons.prems t have "choose_slices E r1 rest = (Inl e, r')"
        by (auto split: prod.splits sum.splits)
      from Cons.IH [OF this] show ?thesis by simp
    qed
  qed
qed

lemma in_bounds_nth:
  assumes "\<not> out_of_bounds have want" "i < length have" "i < length want"
  shows "want ! i \<le> have ! i"
proof (rule ccontr)
  assume "\<not> want ! i \<le> have ! i"
  then have "have ! i < want ! i" by simp
  with assms(2,3) have "out_of_bounds have want"
    unfolding out_of_bounds_nth by blast
  with assms(1) show False ..
qed

lemma in_bounds_zip3:
  "\<not> out_of_bounds have want \<Longrightarrow> list_all (\<lambda>(h, w, p). w \<le> h) (zip have (zip want ps))"
  by (simp add: list_all_length in_bounds_nth)

lemma choose_slices_in_bounds:
  assumes "\<not> out_of_bounds have want"
  shows "choose_slices E r (zip have (zip want ps)) \<noteq> (Inl e, r')"
proof
  assume "choose_slices E r (zip have (zip want ps)) = (Inl e, r')"
  from choose_slices_error [OF this] in_bounds_zip3 [OF assms, of ps]
  show False by simp
qed

lemma resolve_shape_error:
  "resolve_shape spec have = Inl e \<Longrightarrow> e = IndexError"
  using resolve_from_error by (simp add: resolve_shape_def)

lemma attempt_frame:
  "snd (attempt E s) = s\<lparr>rng := rng (snd (attempt E s))\<rparr>"
  by (simp add: attempt_def split: prod.splits option.splits sum.splits)

lemma attempt_Slice:
  assumes "attempt E s = (Slice item sl, s')"
  shows "\<exists>want r2.
           h5_items s \<noteq> [] \<and>
           h5_getitem (h5 s) (fst (choice E (rng s) (h5_items s))) = Some item \<and>
           resolve_shape (shape s) (shape_of item) = Inr want \<and>
           \<not> out_of_bounds (shape_of item) want \<and>
           choose_slices E (snd (choice E (rng s) (h5_items s)))
             (zip (shape_of item) (zip want (pos s))) = (Inr sl, r2) \<and>
           s' = s\<lparr>rng := r2\<rparr>"
  using assms
  by (auto simp: attempt_def split: prod.splits option.splits sum.splits if_splits)

lemma attempt_Raise:
  assumes "attempt E s = (Raise e, s')"
  shows "e \<in> {ValueError Empty_choice, KeyError, IndexError}"
  using assms
  by (auto simp: attempt_def choose_slices_in_bounds
      split: prod.splits option.splits sum.splits if_splits dest: resolve_shape_error)

text \<open>What the slices of a pass look like, dimension by dimension.\<close>

lemma attempt_slices:
  assumes "attempt E s = (Slice item sl, s')"
  shows "\<exists>want.
           resolve_shape (shape s) (shape_of item) = Inr want \<and>
           length want = length (shape s) \<and>
           length sl = min (length (shape_of item)) (min (length (shape s)) (length (pos s))) \<and>
           (\<forall>i<length sl.
              snd (sl ! i) = fst (sl ! i) + want ! i \<and>
              want ! i \<le> shape_of item ! i \<and>
              (\<forall>q. pos s ! i = Some q \<longrightarrow> fst (sl ! i) = q) \<and>
              (pos s ! i = None \<longrightarrow> rng_contract E \<longrightarrow> fst (sl ! i) + want ! i \<le> shape_of item ! i))"
proof -
  from attempt_Slice [OF assms] obtain want r2 where
    res: "resolve_shape (shape s) (shape_of item) = Inr want" and
    inb: "\<not> out_of_bounds (shape_of item) want" and
    ch: "choose_slices E (snd (choice E (rng s) (h5_items s)))
             (zip (shape_of item) (zip want (pos s))) = (Inr sl, r2)"
    by blast
  from res have lw: "length want = length (shape s)"
    using resolve_from_Inr by (simp add: resolve_shape_def)
  let ?ts = "zip (shape_of item) (zip want (pos s))"
  note cs = choose_slices_Inr [OF ch]
  from cs lw have len: "length sl = min (length (shape_of item)) (min (length (shape s)) (length (pos s)))"
    by simp
  have "\<forall>i<length sl.
              snd (sl ! i) = fst (sl ! i) + want ! i \<and>
              want ! i \<le> shape_of item ! i \<and>
              (\<forall>q. pos s ! i = Some q \<longrightarrow> fst (sl ! i) = q) \<and>
              (pos s ! i = None \<longrightarrow> rng_contract E \<longrightarrow> fst (sl ! i) + want ! i \<le> shape_of item ! i)"
  proof (intro allI impI)
    fix i assume i: "i < length sl"
    with cs have its: "i < length ?ts" by simp
    then have nth: "?ts ! i = (shape_of item ! i, want ! i, pos s ! i)" by simp
    from its have "i < length (shape_of item)" "i < length want" by simp_all
    with inb have wh: "want ! i \<le> shape_of item ! i"
      by (simp add: in_bounds_nth)
    from cs its nth wh
    show "snd (sl ! i) = fst (sl ! i) + want ! i \<and>
              want ! i \<le> shape_of item ! i \<and>
              (\<forall>q. pos s ! i = Some q \<longrightarrow> fst (sl ! i) = q) \<and>
              (pos s ! i = None \<longrightarrow> rng_contract E \<longrightarrow> fst (sl ! i) + want ! i \<le> shape_of item ! i)"
      by simp
  qed
  with res lw len show ?thesis by blast
qed

lemma every_itemD:
  assumes "every_item P s" "key \<in> set (h5_items s)"
  shows "\<exists>d. h5_getitem (h5 s) key = Some d \<and> P (shape_of d)"
  using assms by (auto simp: every_item_def list_all_iff split: option.splits)

lemma every_item_rng [simp]: "every_item P (s\<lparr>rng := r\<rparr>) = every_item P s"
  by (simp add: every_item_def)

lemma next_loop_frame:
  "snd (next_loop E s n) = s\<lparr>rng := rng (snd (next_loop E s n))\<rparr>"
proof (induction n arbitrary: s)
  case 0
  show ?case by simp
next
  case (Suc n)
  obtain out s1 where a: "attempt E s = (out, s1)" by (cases "attempt E s")
  with attempt_frame [of E s] have s1: "s1 = s\<lparr>rng := rng s1\<rparr>" by simp
  show ?case
  proof (cases out)
    case Continue
    from Suc.IH [of s1] have "snd (next_loop E s1 n) = s1\<lparr>rng := rng (snd (next_loop E s1 n))\<rparr>" .
    also have "\<dots> = s\<lparr>rng := rng (snd (next_loop E s1 n))\<rparr>"
      by (subst s1) simp
    finally show ?thesis using a Continue by simp
  next
    case (Raise e)
    with a s1 show ?thesis by simp
  next
    case (Slice item sl)
    with a s1 show ?thesis by simp
  qed
qed

text \<open>The path the file was opened from plays no part in a call.\<close>

lemma attempt_path:
  "attempt E (s\<lparr>hdf5_path := p\<rparr>) = map_prod id (hdf5_path_update (\<lambda>_. p)) (attempt E s)"
  by (simp add: attempt_def split: prod.splits option.splits sum.splits)

lemma next_loop_path:
  "next_loop E (s\<lparr>hdf5_path := p\<rparr>) n = map_prod id (hdf5_path_update (\<lambda>_. p)) (next_loop E s n)"
proof (induction n arbitrary: s)
  case 0
  show ?case by simp
next
  case (Suc n)
  obtain out s1 where a: "attempt E s = (out, s1)" by (cases "attempt E s")
  then have "attempt E (s\<lparr>hdf5_path := p\<rparr>) = (out, s1\<lparr>hdf5_path := p\<rparr>)"
    by (simp add: attempt_path)
  with a Suc.IH [of s1] show ?case by (cases out) simp_all
qed

lemma samples_path:
  "samples E (s\<lparr>hdf5_path := p\<rparr>) n = samples E s n"
proof (induction n arbitrary: s)
  case 0
  show ?case by simp
next
  case (Suc n)
  obtain res s1 where a: "Hdf5Iterator_next E s = (res, s1)" by (cases "Hdf5Iterator_next E s")
  then have "Hdf5Iterator_next E (s\<lparr>hdf5_path := p\<rparr>) = (res, s1\<lparr>hdf5_path := p\<rparr>)"
    by (simp add: Hdf5Iterator_next_def next_loop_path)
  with a Suc.IH [of s1] show ?case by simp
qed

lemma draws_Suc: "draws E items (Suc k) r = draws E items k (snd (choice E r items))"
  unfolding draws_def funpow_Suc_right by simp

lemma resolve_from_wildcards:
  assumes "list_all (\<lambda>(k, dim). case dim of None \<Rightarrow> k < length have | Some d \<Rightarrow> True)
             (enumerate j spec)"
  shows "\<exists>want. resolve_from j spec have = Inr want"
  using assms
proof (induction spec arbitrary: j)
  case Nil
  show ?case by simp
next
  case (Cons dim rest)
  from Cons.prems have
    hd: "case dim of None \<Rightarrow> j < length have | Some d \<Rightarrow> True" and
    tl: "list_all (\<lambda>(k, dim). case dim of None \<Rightarrow> k < length have | Some d \<Rightarrow> True)
           (enumerate (Suc j) rest)"
    by simp_all
  from Cons.IH [OF tl] obtain ds where "resolve_from (Suc j) rest have = Inr ds" ..
  with hd show ?case by (cases dim) simp_all
qed

lemma resolve_shape_wildcards:
  "wildcards_within spec have \<Longrightarrow> \<exists>want. resolve_shape spec have = Inr want"
  unfolding wildcards_within_def resolve_shape_def by (rule resolve_from_wildcards)

lemma attempt_too_big:
  assumes rc: "rng_contract E" and ne: "h5_items s \<noteq> []"
    and j: "j < length (shape s)" "shape s ! j = Some w"
    and ev: "every_item
               (\<lambda>have. j < length have \<and> have ! j < w \<and> wildcards_within (shape s) have) s"
  shows "attempt E s = (Continue, s\<lparr>rng := snd (choice E (rng s) (h5_items s))\<rparr>)"
proof -
  obtain key r1 where c: "choice E (rng s) (h5_items s) = (key, r1)"
    by (cases "choice E (rng s) (h5_items s)")
  with rc ne have "key \<in> set (h5_items s)"
    unfolding rng_contract_def by (metis fst_conv)
  from every_itemD [OF ev this] obtain d where
    d: "h5_getitem (h5 s) key = Some d" and
    jd: "j < length (shape_of d)" and small: "shape_of d ! j < w" and
    ww: "wildcards_within (shape s) (shape_of d)"
    by blast
  from resolve_shape_wildcards [OF ww] obtain want where
    want: "resolve_shape (shape s) (shape_of d) = Inr want" ..
  from resolve_from_Inr [OF want [unfolded resolve_shape_def]] j
  have "length want = length (shape s)" "want ! j = w" by auto
  with j jd small have "out_of_bounds (shape_of d) want"
    unfolding out_of_bounds_nth by (intro exI [of _ j]) simp
  with ne c d want show ?thesis by (simp add: attempt_def)
qed

lemma next_loop_too_big:
  assumes rc: "rng_contract E" and ne: "h5_items s \<noteq> []"
    and j: "j < length (shape s)" "shape s ! j = Some w"
    and ev: "every_item
               (\<lambda>have. j < length have \<and> have ! j < w \<and> wildcards_within (shape s) have) s"
  shows "next_loop E s n =
           (Inl (ValueError Failed_to_find_a_slice), s\<lparr>rng := draws E (h5_items s) n (rng s)\<rparr>)"
  using assms
proof (induction n arbitrary: s)
  case 0
  show ?case by (simp add: draws_def)
next
  case (Suc n)
  let ?s1 = "s\<lparr>rng := snd (choice E (rng s) (h5_items s))\<rparr>"
  from Suc.prems have a: "attempt E s = (Continue, ?s1)" by (rule attempt_too_big)
  from Suc.prems have "next_loop E ?s1 n =
      (Inl (ValueError Failed_to_find_a_slice), ?s1\<lparr>rng := draws E (h5_items ?s1) n (rng ?s1)\<rparr>)"
    by (intro Suc.IH) simp_all
  with a show ?case by (simp add: draws_Suc)
qed

lemma rng_update_frame:
  "s1 = s\<lparr>rng := r1\<rparr> \<Longrightarrow> s1\<lparr>rng := r\<rparr> = s\<lparr>rng := r\<rparr>"
  by simp

lemma find_slice_Inr:
  "find_slice E s n = (Inr (item, sl), s') \<Longrightarrow>
     \<exists>r. attempt E (s\<lparr>rng := r\<rparr>) = (Slice item sl, s')"
proof (induction n arbitrary: s)
  case 0
  then show ?case by simp
next
  case (Suc n)
  obtain out s1 where a: "attempt E s = (out, s1)" by (cases "attempt E s")
  with attempt_frame [of E s] have s1: "s1 = s\<lparr>rng := rng s1\<rparr>" by simp
  show ?case
  proof (cases out)
    case Continue
    with a Suc.prems have "find_slice E s1 n = (Inr (item, sl), s')" by simp
    from Suc.IH [OF this] obtain r where "attempt E (s1\<lparr>rng := r\<rparr>) = (Slice item sl, s')" ..
    moreover have "s1\<lparr>rng := r\<rparr> = s\<lparr>rng := r\<rparr>" using s1 by (rule rng_update_frame)
    ultimately show ?thesis by auto
  next
    case (Raise e)
    with a Suc.prems show ?thesis by simp
  next
    case (Slice item' sl')
    with a Suc.prems have "attempt E s = (Slice item sl, s')" by simp
    moreover have "s\<lparr>rng := rng s\<rparr> = s" by simp
    ultimately show ?thesis by metis
  qed
qed

lemma find_slice_Inl:
  "find_slice E s n = (Inl e, s') \<Longrightarrow>
     e \<in> {ValueError Failed_to_find_a_slice, ValueError Empty_choice, KeyError, IndexError}"
proof (induction n arbitrary: s)
  case 0
  then show ?case by simp
next
  case (Suc n)
  obtain out s1 where a: "attempt E s = (out, s1)" by (cases "attempt E s")
  show ?case
  proof (cases out)
    case Continue
    with a Suc.prems have "find_slice E s1 n = (Inl e, s')" by simp
    from Suc.IH [OF this] show ?thesis .
  next
    case (Raise e')
    with a Suc.prems have "e' = e" by simp
    with attempt_Raise [of E s e s1] a Raise show ?thesis by auto
  next
    case (Slice item' sl')
    with a Suc.prems show ?thesis by simp
  qed
qed

lemma next_find_slice:
  "fst (Hdf5Iterator_next E s) =
     (case fst (find_slice E s num_tries) of
        Inl e \<Rightarrow> Inl e
      | Inr (item, slices) \<Rightarrow> getitem E item slices)"
  by (simp add: Hdf5Iterator_next_def next_loop_find_slice split: prod.splits sum.splits)

text \<open>The slices a call settles on, read off the pass that chose them.\<close>

lemma find_slice_slices:
  assumes "fst (find_slice E s n) = Inr (item, sl)"
  shows "\<exists>want.
           (\<exists>r. h5_getitem (h5 s) (fst (choice E r (h5_items s))) = Some item) \<and>
           resolve_shape (shape s) (shape_of item) = Inr want \<and>
           length want = length (shape s) \<and>
           length sl = min (length (shape_of item)) (min (length (shape s)) (length (pos s))) \<and>
           (\<forall>i<length sl.
              snd (sl ! i) = fst (sl ! i) + want ! i \<and>
              want ! i \<le> shape_of item ! i \<and>
              (\<forall>q. pos s ! i = Some q \<longrightarrow> fst (sl ! i) = q) \<and>
              (pos s ! i = None \<longrightarrow> rng_contract E \<longrightarrow> fst (sl ! i) + want ! i \<le> shape_of item ! i))"
proof -
  from assms obtain s' where "find_slice E s n = (Inr (item, sl), s')"
    by (cases "find_slice E s n") simp
  from find_slice_Inr [OF this] obtain r where
    a: "attempt E (s\<lparr>rng := r\<rparr>) = (Slice item sl, s')" ..
  from attempt_Slice [OF a]
  have "h5_getitem (h5 s) (fst (choice E r (h5_items s))) = Some item" by auto
  with attempt_slices [OF a] show ?thesis by auto
qed

lemma num_tries_Suc: "num_tries = Suc 499"
  by (simp add: num_tries_def)

lemma find_slice_first:
  assumes "attempt E s = (Slice item sl, s1)"
  shows "find_slice E s num_tries = (Inr (item, sl), s1)"
proof -
  have "find_slice E s (Suc n) = (Inr (item, sl), s1)" for n
    using assms by simp
  then show ?thesis unfolding num_tries_Suc .
qed

lemma next_first:
  assumes "attempt E s = (Slice item sl, s1)"
  shows "Hdf5Iterator_next E s = (getitem E item sl, s1)"
proof -
  have "next_loop E s (Suc n) = (getitem E item sl, s1)" for n
    using assms by simp
  then show ?thesis unfolding Hdf5Iterator_next_def num_tries_Suc .
qed

lemma next_first_raise:
  assumes "attempt E s = (Raise e, s1)"
  shows "Hdf5Iterator_next E s = (Inl e, s1)"
proof -
  have "next_loop E s (Suc n) = (Inl e, s1)" for n
    using assms by simp
  then show ?thesis unfolding Hdf5Iterator_next_def num_tries_Suc .
qed

text \<open>
  The values of the pinned positions decide nothing before the read: two position tuples
  with \<open>None\<close> at the same places lead to the same draws and the same outcome of a pass,
  up to the slices.
\<close>

lemma choose_slices_pins:
  assumes "list_all2 (\<lambda>t u. fst t = fst u \<and> fst (snd t) = fst (snd u) \<and>
             (snd (snd t) = None \<longleftrightarrow> snd (snd u) = None)) ts us"
  shows "(\<exists>e r2. choose_slices E r ts = (Inl e, r2) \<and> choose_slices E r us = (Inl e, r2)) \<or>
         (\<exists>sl sl' r2. choose_slices E r ts = (Inr sl, r2) \<and> choose_slices E r us = (Inr sl', r2))"
  using assms
proof (induction ts us arbitrary: r rule: list_all2_induct)
  case Nil
  show ?case by simp
next
  case (Cons t ts u us)
  obtain h w p where t: "t = (h, w, p)" by (cases t)
  obtain p' where u: "u = (h, w, p')" and pp: "p = None \<longleftrightarrow> p' = None"
    using Cons.hyps(1) t by (cases u) auto
  have "\<exists>res res' r1. slice_start E r h w p = (res, r1) \<and> slice_start E r h w p' = (res', r1) \<and>
          ((\<exists>e. res = Inl e \<and> res' = Inl e) \<or> (\<exists>st st'. res = Inr st \<and> res' = Inr st'))"
  proof (cases p)
    case None
    with pp have "p' = None" by simp
    with None show ?thesis
      by (cases "slice_start E r h w None"; cases "fst (slice_start E r h w None)") auto
  next
    case (Some q)
    with pp obtain q' where "p' = Some q'" by auto
    with Some show ?thesis by (simp add: slice_start_def)
  qed
  then obtain res res' r1 where
    st: "slice_start E r h w p = (res, r1)" "slice_start E r h w p' = (res', r1)" and
    alt: "(\<exists>e. res = Inl e \<and> res' = Inl e) \<or> (\<exists>st st'. res = Inr st \<and> res' = Inr st')"
    by blast
  from alt show ?case
  proof
    assume "\<exists>e. res = Inl e \<and> res' = Inl e"
    with st t u show ?thesis by auto
  next
    assume "\<exists>st st'. res = Inr st \<and> res' = Inr st'"
    then obtain a a' where r: "res = Inr a" "res' = Inr a'" by blast
    from Cons.IH [of r1] show ?thesis
    proof
      assume "\<exists>e r2. choose_slices E r1 ts = (Inl e, r2) \<and> choose_slices E r1 us = (Inl e, r2)"
      with st r t u show ?thesis by auto
    next
      assume "\<exists>sl sl' r2. choose_slices E r1 ts = (Inr sl, r2) \<and> choose_slices E r1 us = (Inr sl', r2)"
      with st r t u show ?thesis by auto
    qed
  qed
qed

lemma zip_pins:
  assumes "map (\<lambda>p. p = None) ps = map (\<lambda>p. p = None) qs"
  shows "list_all2 (\<lambda>t u. fst t = fst u \<and> fst (snd t) = fst (snd u) \<and>
             (snd (snd t) = None \<longleftrightarrow> snd (snd u) = None))
           (zip have (zip want ps)) (zip have (zip want (qs :: nat option list)))"
proof -
  from assms have len: "length ps = length qs" by (rule map_eq_imp_length_eq)
  have "(ps ! i = None) = (qs ! i = None)" if "i < length ps" for i
  proof -
    from that len have "map (\<lambda>p. p = None) ps ! i = (ps ! i = None)"
      "map (\<lambda>p. p = None) qs ! i = (qs ! i = None)" by simp_all
    with assms show ?thesis by simp
  qed
  with len show ?thesis by (simp add: list_all2_conv_all_nth)
qed

lemma attempt_pins:
  assumes "map (\<lambda>p. p = None) ps = map (\<lambda>p. p = None) (pos s)"
  shows "(\<exists>s1. attempt E (s\<lparr>pos := ps\<rparr>) = (Continue, s1\<lparr>pos := ps\<rparr>) \<and>
               attempt E s = (Continue, s1) \<and> pos s1 = pos s) \<or>
         (\<exists>e s1. attempt E (s\<lparr>pos := ps\<rparr>) = (Raise e, s1\<lparr>pos := ps\<rparr>) \<and>
               attempt E s = (Raise e, s1)) \<or>
         (\<exists>item sl sl' s1. attempt E (s\<lparr>pos := ps\<rparr>) = (Slice item sl, s1\<lparr>pos := ps\<rparr>) \<and>
               attempt E s = (Slice item sl', s1))"
proof (cases "h5_items s = []")
  case True
  then show ?thesis by (simp add: attempt_def)
next
  case False
  obtain key r1 where c: "choice E (rng s) (h5_items s) = (key, r1)"
    by (cases "choice E (rng s) (h5_items s)")
  show ?thesis
  proof (cases "h5_getitem (h5 s) key")
    case None
    with False c show ?thesis by (simp add: attempt_def)
  next
    case (Some d)
    show ?thesis
    proof (cases "resolve_shape (shape s) (shape_of d)")
      case (Inl e)
      with False c Some show ?thesis by (simp add: attempt_def)
    next
      case (Inr want)
      show ?thesis
      proof (cases "out_of_bounds (shape_of d) want")
        case True
        with False c Some Inr show ?thesis by (simp add: attempt_def)
      next
        case oob: False
        from choose_slices_pins [OF zip_pins [OF assms], of E r1 "shape_of d" want]
        show ?thesis
        proof
          assume "\<exists>e r2. choose_slices E r1 (zip (shape_of d) (zip want ps)) = (Inl e, r2) \<and>
                    choose_slices E r1 (zip (shape_of d) (zip want (pos s))) = (Inl e, r2)"
          then show ?thesis using False c Some Inr oob by (auto simp: attempt_def)
        next
          assume "\<exists>sl sl' r2. choose_slices E r1 (zip (shape_of d) (zip want ps)) = (Inr sl, r2) \<and>
                    choose_slices E r1 (zip (shape_of d) (zip want (pos s))) = (Inr sl', r2)"
          then show ?thesis using False c Some Inr oob by (auto simp: attempt_def)
        qed
      qed
    qed
  qed
qed

lemma find_slice_pins:
  assumes "map (\<lambda>p. p = None) ps = map (\<lambda>p. p = None) (pos s)"
  shows "map_prod (map_sum id fst) rng (find_slice E (s\<lparr>pos := ps\<rparr>) n) =
         map_prod (map_sum id fst) rng (find_slice E s n)"
  using assms
proof (induction n arbitrary: s)
  case 0
  show ?case by simp
next
  case (Suc n)
  from attempt_pins [OF Suc.prems, of E]
  consider
    (cont) s1 where "attempt E (s\<lparr>pos := ps\<rparr>) = (Continue, s1\<lparr>pos := ps\<rparr>)"
      "attempt E s = (Continue, s1)" "pos s1 = pos s"
  | (raise) e s1 where "attempt E (s\<lparr>pos := ps\<rparr>) = (Raise e, s1\<lparr>pos := ps\<rparr>)"
      "attempt E s = (Raise e, s1)"
  | (slice) item sl sl' s1 where "attempt E (s\<lparr>pos := ps\<rparr>) = (Slice item sl, s1\<lparr>pos := ps\<rparr>)"
      "attempt E s = (Slice item sl', s1)"
    by blast
  then show ?case
  proof cases
    case cont
    from Suc.prems cont(3) have "map (\<lambda>p. p = None) ps = map (\<lambda>p. p = None) (pos s1)" by simp
    from Suc.IH [OF this] cont show ?thesis by simp
  next
    case raise
    then show ?thesis by simp
  next
    case slice
    then show ?thesis by simp
  qed
qed

lemma resolve_shape_Inr:
  assumes "resolve_shape spec have = Inr want"
  shows "length want = length spec"
    and "i < length spec \<Longrightarrow> want ! i = (case spec ! i of None \<Rightarrow> have ! i | Some d \<Rightarrow> d)"
    and "i < length spec \<Longrightarrow> spec ! i = None \<Longrightarrow> i < length have"
proof -
  note rs = resolve_from_Inr [OF assms [unfolded resolve_shape_def]]
  from rs show "length want = length spec" by (rule conjunct1)
  from rs have nth: "\<forall>i<length spec.
        want ! i = (case spec ! i of None \<Rightarrow> have ! (0 + i) | Some d \<Rightarrow> d) \<and>
        (spec ! i = None \<longrightarrow> 0 + i < length have)" by (rule conjunct2)
  {
    assume i: "i < length spec"
    with nth have w: "want ! i = (case spec ! i of None \<Rightarrow> have ! (0 + i) | Some d \<Rightarrow> d)"
      and h: "spec ! i = None \<longrightarrow> 0 + i < length have" by blast+
    from w show "want ! i = (case spec ! i of None \<Rightarrow> have ! i | Some d \<Rightarrow> d)"
      by (cases "spec ! i") simp_all
    assume "spec ! i = None"
    with h show "i < length have" by simp
  }
qed

lemma fits_nth:
  assumes "fits spec pspec have" "i < length spec" "i < length pspec"
  shows "i < length have"
    and "(case spec ! i of None \<Rightarrow> True | Some w \<Rightarrow> w \<le> have ! i)"
    and "(case pspec ! i of
            None \<Rightarrow> True
          | Some q \<Rightarrow> q + (case spec ! i of None \<Rightarrow> have ! i | Some w \<Rightarrow> w) \<le> have ! i)"
proof -
  from assms show len: "i < length have" by (simp add: fits_def)
  let ?ts = "zip have (zip spec pspec)"
  from len assms(2,3) have "i < length ?ts" by simp
  then have "?ts ! i \<in> set ?ts" by (rule nth_mem)
  moreover from len assms(2,3) have "?ts ! i = (have ! i, spec ! i, pspec ! i)" by simp
  ultimately have mem: "(have ! i, spec ! i, pspec ! i) \<in> set ?ts" by simp
  from assms(1) have "\<forall>t\<in>set ?ts. case t of (have_dim, dim, p) \<Rightarrow>
          (case dim of None \<Rightarrow> True | Some w \<Rightarrow> w \<le> have_dim) \<and>
          (case p of
             None \<Rightarrow> True
           | Some q \<Rightarrow> q + (case dim of None \<Rightarrow> have_dim | Some w \<Rightarrow> w) \<le> have_dim)"
    by (simp add: fits_def list_all_iff)
  from bspec [OF this mem]
  show "(case spec ! i of None \<Rightarrow> True | Some w \<Rightarrow> w \<le> have ! i)"
    and "(case pspec ! i of
            None \<Rightarrow> True
          | Some q \<Rightarrow> q + (case spec ! i of None \<Rightarrow> have ! i | Some w \<Rightarrow> w) \<le> have ! i)"
    by simp_all
qed

text \<open>
  On a catalogue whose items all fit the request, the first pass settles on an item and
  on slices within it, of the resolved extents.
\<close>

lemma attempt_fits:
  assumes rc: "rng_contract E" and ne: "h5_items s \<noteq> []"
    and lp: "length (pos s) = length (shape s)"
    and ev: "every_item (\<lambda>have. fits (shape s) (pos s) have \<and> P have) s"
  shows "\<exists>item slices want s1.
           attempt E s = (Slice item slices, s1) \<and>
           P (shape_of item) \<and>
           resolve_shape (shape s) (shape_of item) = Inr want \<and>
           length (shape s) \<le> length (shape_of item) \<and>
           length slices = length (shape s) \<and>
           within (shape_of item) slices \<and>
           map (\<lambda>(start, stop). stop - start) slices = want \<and>
           (\<forall>i<length slices. pos s ! i = None \<longrightarrow> fst (slices ! i) + want ! i \<le> shape_of item ! i)"
proof -
  obtain key r1 where c: "choice E (rng s) (h5_items s) = (key, r1)"
    by (cases "choice E (rng s) (h5_items s)")
  with rc ne have "key \<in> set (h5_items s)"
    unfolding rng_contract_def by (metis fst_conv)
  from every_itemD [OF ev this] obtain d where
    d: "h5_getitem (h5 s) key = Some d" and ft: "fits (shape s) (pos s) (shape_of d)"
    and pd: "P (shape_of d)"
    by blast
  from ft have len: "length (shape s) \<le> length (shape_of d)" by (simp add: fits_def)
  then obtain want where want: "resolve_shape (shape s) (shape_of d) = Inr want"
    using resolve_from_total [of 0 "shape s" "shape_of d"] by (auto simp: resolve_shape_def)
  note lw = resolve_shape_Inr(1) [OF want]
  note wnth = resolve_shape_Inr(2) [OF want]
  have inb: "\<not> out_of_bounds (shape_of d) want"
  proof
    assume "out_of_bounds (shape_of d) want"
    then obtain i where i: "i < length (shape_of d)" "i < length want"
      and big: "shape_of d ! i < want ! i"
      unfolding out_of_bounds_nth by blast
    from i lw have ish: "i < length (shape s)" by simp
    with lp have ip: "i < length (pos s)" by simp
    from fits_nth(2) [OF ft ish ip] wnth [OF ish] big show False
      by (cases "shape s ! i") simp_all
  qed
  from choose_slices_total [OF in_bounds_zip3 [OF inb, of "pos s"], of E r1] obtain sl r2 where
    cs: "choose_slices E r1 (zip (shape_of d) (zip want (pos s))) = (Inr sl, r2)"
    by blast
  with ne c d want inb have a: "attempt E s = (Slice d sl, s\<lparr>rng := r2\<rparr>)"
    by (simp add: attempt_def)
  from attempt_slices [OF a] obtain want' where
    want': "resolve_shape (shape s) (shape_of d) = Inr want'" and
    lsl: "length sl = min (length (shape_of d)) (min (length (shape s)) (length (pos s)))" and
    nth': "\<forall>i<length sl.
              snd (sl ! i) = fst (sl ! i) + want' ! i \<and>
              want' ! i \<le> shape_of d ! i \<and>
              (\<forall>q. pos s ! i = Some q \<longrightarrow> fst (sl ! i) = q) \<and>
              (pos s ! i = None \<longrightarrow> rng_contract E \<longrightarrow> fst (sl ! i) + want' ! i \<le> shape_of d ! i)"
    by blast
  from want want' have "want' = want" by simp
  with nth' have nth: "snd (sl ! i) = fst (sl ! i) + want ! i \<and>
              want ! i \<le> shape_of d ! i \<and>
              (\<forall>q. pos s ! i = Some q \<longrightarrow> fst (sl ! i) = q) \<and>
              (pos s ! i = None \<longrightarrow> rng_contract E \<longrightarrow> fst (sl ! i) + want ! i \<le> shape_of d ! i)"
    if "i < length sl" for i
    using that by blast
  from lsl lp len have lsl': "length sl = length (shape s)" by simp
  have stop: "fst (sl ! i) + want ! i \<le> shape_of d ! i" if i: "i < length sl" for i
  proof (cases "pos s ! i")
    case None
    with nth [OF i] rc show ?thesis by simp
  next
    case (Some q)
    from i lsl' lp have ish: "i < length (shape s)" and ip: "i < length (pos s)" by simp_all
    from fits_nth(3) [OF ft ish ip] Some wnth [OF ish]
    have "q + want ! i \<le> shape_of d ! i" by simp
    moreover from nth [OF i] Some have "fst (sl ! i) = q" by simp
    ultimately show ?thesis by simp
  qed
  have wi: "within (shape_of d) sl"
    unfolding within_def list_all_length
  proof (intro conjI allI impI)
    show "length sl \<le> length (shape_of d)" using lsl' len by simp
  next
    fix i assume "i < length (zip sl (shape_of d))"
    then have i: "i < length sl" and id: "i < length (shape_of d)" by simp_all
    from nth [OF i] stop [OF i] i id
    show "case zip sl (shape_of d) ! i of
            (x, xa) \<Rightarrow> (case x of (start, stop) \<Rightarrow> \<lambda>have_dim. start \<le> stop \<and> stop \<le> have_dim) xa"
      by (cases "sl ! i") simp
  qed
  have ext: "map (\<lambda>(start, stop). stop - start) sl = want"
  proof (rule nth_equalityI)
    show "length (map (\<lambda>(start, stop). stop - start) sl) = length want"
      using lsl' lw by simp
  next
    fix i assume "i < length (map (\<lambda>(start, stop). stop - start) sl)"
    then have i: "i < length sl" by simp
    with nth [OF i] show "map (\<lambda>(start, stop). stop - start) sl ! i = want ! i"
      by (cases "sl ! i") simp
  qed
  have "\<forall>i<length sl. pos s ! i = None \<longrightarrow> fst (sl ! i) + want ! i \<le> shape_of d ! i"
    using stop by blast
  with a want len lsl' wi ext pd
  have "attempt E s = (Slice d sl, s\<lparr>rng := r2\<rparr>) \<and>
           P (shape_of d) \<and>
           resolve_shape (shape s) (shape_of d) = Inr want \<and>
           length (shape s) \<le> length (shape_of d) \<and>
           length sl = length (shape s) \<and>
           within (shape_of d) sl \<and>
           map (\<lambda>(start, stop). stop - start) sl = want \<and>
           (\<forall>i<length sl. pos s ! i = None \<longrightarrow> fst (sl ! i) + want ! i \<le> shape_of d ! i)"
    by (intro conjI)
  then show ?thesis by (intro exI)
qed

text \<open>
  The first pass on a catalogue whose items all fit, followed by the read: the result is
  an array of the resolved extents, then the item's extents beyond the requested shape.
\<close>

lemma next_fits:
  assumes rc: "rng_contract E" and sc: "store_contract E" and ne: "h5_items s \<noteq> []"
    and lp: "length (pos s) = length (shape s)"
    and ev: "every_item (\<lambda>have. fits (shape s) (pos s) have \<and> P have) s"
  shows "\<exists>item slices want a.
           fst (find_slice E s num_tries) = Inr (item, slices) \<and>
           P (shape_of item) \<and>
           resolve_shape (shape s) (shape_of item) = Inr want \<and>
           length slices = length (shape s) \<and>
           fst (Hdf5Iterator_next E s) = Inr a \<and>
           shape_of a = want @ drop (length (shape s)) (shape_of item) \<and>
           (\<forall>i<length slices. pos s ! i = None \<longrightarrow> fst (slices ! i) + want ! i \<le> shape_of item ! i)"
proof -
  from attempt_fits [OF rc ne lp ev] obtain item slices want s1 where
    a: "attempt E s = (Slice item slices, s1)" and
    p: "P (shape_of item)" and
    res: "resolve_shape (shape s) (shape_of item) = Inr want" and
    len: "length slices = length (shape s)" and
    wi: "within (shape_of item) slices" and
    ext: "map (\<lambda>(start, stop). stop - start) slices = want" and
    st: "\<forall>i<length slices. pos s ! i = None \<longrightarrow> fst (slices ! i) + want ! i \<le> shape_of item ! i"
    by blast
  from sc wi obtain a where
    rd: "getitem E item slices = Inr a" and
    sh: "shape_of a = sliced_shape (shape_of item) slices"
    unfolding store_contract_def by blast
  from sh ext len have sh': "shape_of a = want @ drop (length (shape s)) (shape_of item)"
    by (simp add: sliced_shape_def)
  from find_slice_first [OF a] have fs: "fst (find_slice E s num_tries) = Inr (item, slices)"
    by simp
  from next_first [OF a] rd have nx: "fst (Hdf5Iterator_next E s) = Inr a" by simp
  from fs p res len nx sh' st
  have "fst (find_slice E s num_tries) = Inr (item, slices) \<and>
           P (shape_of item) \<and>
           resolve_shape (shape s) (shape_of item) = Inr want \<and>
           length slices = length (shape s) \<and>
           fst (Hdf5Iterator_next E s) = Inr a \<and>
           shape_of a = want @ drop (length (shape s)) (shape_of item) \<and>
           (\<forall>i<length slices. pos s ! i = None \<longrightarrow> fst (slices ! i) + want ! i \<le> shape_of item ! i)"
    by (intro conjI)
  then show ?thesis by (intro exI)
qed

lemma resolve_shape_concrete:
  assumes "resolve_shape (map Some ws) have = Inr want"
  shows "want = ws"
proof (rule nth_equalityI)
  from resolve_shape_Inr(1) [OF assms] show "length want = length ws" by simp
next
  fix i assume "i < length want"
  with resolve_shape_Inr(1) [OF assms] have "i < length (map Some ws)" by simp
  from resolve_shape_Inr(2) [OF assms this] this show "want ! i = ws ! i" by simp
qed



section \<open>The fixture evaluated\<close>

lemma test_init:
  "path \<in> {''._test.h5'', ''copy.h5''} \<Longrightarrow>
     Hdf5Iterator_init test_E path shp p 41 =
       Inr (test_iter path test_h5 shp (case p of Some q \<Rightarrow> q | None \<Rightarrow> map (\<lambda>dim. None) shp))"
  by (auto simp: Hdf5Iterator_init_def np_RandomState_def test_E_def test_iter_def h5_keys_def
      h5_group_keys_def h5_paths_def test_h5_def)

text \<open>A seed numpy refuses: the file opens, seeding raises.\<close>

lemma test_init_bad_seed:
  "Hdf5Iterator_init test_E ''._test.h5'' shp p (- 1) = Inl (ValueError Seed_out_of_range)"
  by (simp add: Hdf5Iterator_init_def np_RandomState_def test_E_def)

lemma test_rng_contract: "rng_contract test_E"
  by (simp add: rng_contract_def test_E_def test_choice_def test_randint_def)

lemma clamp_within:
  "within have slices \<Longrightarrow> map2 clamp_slice have slices = slices"
proof (induction slices arbitrary: "have")
  case Nil
  show ?case by simp
next
  case (Cons sl slices)
  then obtain h hs where h: "have = h # hs" by (cases "have") (auto simp: within_def)
  with Cons.prems have "within hs slices" and "fst sl \<le> snd sl" and "snd sl \<le> h"
    by (auto simp: within_def)
  with Cons.IH [of hs] h show ?case by (cases sl) (simp add: clamp_slice_def)
qed

lemma h5py_getitem_within:
  assumes "within (shape_of d) slices"
  shows "\<exists>a. h5py_getitem d slices = Inr a \<and> shape_of a = sliced_shape (shape_of d) slices"
proof -
  from assms have "length slices \<le> length (shape_of d)" by (simp add: within_def)
  with clamp_within [OF assms] show ?thesis by (simp add: h5py_getitem_def)
qed

lemma clamp_nth:
  assumes "i < length slices" "i < length have"
  shows "map2 clamp_slice have slices ! i = clamp_slice (have ! i) (slices ! i)"
  using assms by simp

lemma h5py_getitem_dimensionwise:
  assumes "h5py_getitem d slices = Inr a"
  shows "length (shape_of a) = length (shape_of d)"
    and "i < length (shape_of d) \<Longrightarrow> i < length slices \<Longrightarrow>
           shape_of a ! i = min (snd (slices ! i)) (shape_of d ! i) - min (fst (slices ! i)) (shape_of d ! i)"
    and "i < length (shape_of d) \<Longrightarrow> length slices \<le> i \<Longrightarrow> shape_of a ! i = shape_of d ! i"
proof -
  let ?cut = "map2 clamp_slice (shape_of d) slices"
  from assms have len: "length slices \<le> length (shape_of d)"
    and sh: "shape_of a = sliced_shape (shape_of d) ?cut"
    by (auto simp: h5py_getitem_def split: if_splits)
  from len have lc: "length ?cut = length slices" by simp
  from sh lc len show "length (shape_of a) = length (shape_of d)"
    by (simp add: sliced_shape_def)
  {
    assume i: "i < length (shape_of d)" "i < length slices"
    with lc have "sliced_shape (shape_of d) ?cut ! i = snd (?cut ! i) - fst (?cut ! i)"
      by (simp add: sliced_shape_def nth_append split: prod.splits)
    also have "?cut ! i = clamp_slice (shape_of d ! i) (slices ! i)"
      by (rule clamp_nth [OF i(2) i(1)])
    finally show "shape_of a ! i =
        min (snd (slices ! i)) (shape_of d ! i) - min (fst (slices ! i)) (shape_of d ! i)"
      using sh by (simp add: clamp_slice_def)
  }
  {
    assume i: "i < length (shape_of d)" "length slices \<le> i"
    with lc len have "sliced_shape (shape_of d) ?cut ! i = shape_of d ! i"
      by (simp add: sliced_shape_def nth_append)
    with sh show "shape_of a ! i = shape_of d ! i" by simp
  }
qed

lemma test_store_contract: "store_contract test_E"
  unfolding store_contract_def by (simp add: test_E_def h5py_getitem_within)

lemma test_dimensionwise_read: "dimensionwise_read test_E"
  unfolding dimensionwise_read_def
proof (intro allI impI conjI)
  fix d :: "int ndarray" and slices a
  assume "getitem test_E d slices = Inr a"
  then have g: "h5py_getitem d slices = Inr a" by (simp add: test_E_def)
  from h5py_getitem_dimensionwise(1) [OF g]
  show "length (shape_of a) = length (shape_of d)" .
  fix i assume i: "i < length (shape_of d)"
  {
    assume "i < length slices" "fst (slices ! i) \<le> snd (slices ! i)"
      "snd (slices ! i) \<le> shape_of d ! i"
    with h5py_getitem_dimensionwise(2) [OF g i]
    show "shape_of a ! i = snd (slices ! i) - fst (slices ! i)" by (simp add: min_def)
  }
  {
    assume "length slices \<le> i"
    with h5py_getitem_dimensionwise(3) [OF g i]
    show "shape_of a ! i = shape_of d ! i" by simp
  }
qed

lemma test_draws: "draws test_E xs k r = r + k"
  by (induction k) (simp_all add: draws_def test_E_def test_choice_def)

lemmas test_defs =
  test_iter_def test_E_def test_choice_def test_randint_def h5py_getitem_def clamp_slice_def
  test_h5_def cube_h5_def empty_h5_def test_array_def h5_paths_def h5_getitem_def
  resolve_shape_def out_of_bounds_def slice_start_def within_def sliced_shape_def

lemma test_attempt_2_wild:
  "attempt test_E (test_iter ''._test.h5'' test_h5 [Some 2, None] [None, None]) =
     (Slice (test_array [15, 20]) [(0, 2), (0, 20)],
      (test_iter ''._test.h5'' test_h5 [Some 2, None] [None, None])\<lparr>rng := 44\<rparr>)"
  by (simp add: attempt_def test_defs)

lemma test_attempt_pinned:
  "attempt test_E (test_iter ''._test.h5'' test_h5 [Some 2, Some 5] [Some 14, None]) =
     (Slice (test_array [15, 20]) [(14, 16), (10, 15)],
      (test_iter ''._test.h5'' test_h5 [Some 2, Some 5] [Some 14, None])\<lparr>rng := 43\<rparr>)"
  by (simp add: attempt_def test_defs)

lemma test_attempt_cube:
  "attempt test_E (test_iter ''cube.h5'' cube_h5 [Some 2, Some 5] [None, None]) =
     (Slice (test_array [10, 15, 20]) [(6, 8), (10, 15)],
      (test_iter ''cube.h5'' cube_h5 [Some 2, Some 5] [None, None])\<lparr>rng := 44\<rparr>)"
  by (simp add: attempt_def test_defs)

lemma test_next_cube:
  "map_sum id shape_of
     (fst (Hdf5Iterator_next test_E (test_iter ''cube.h5'' cube_h5 [Some 2, Some 5] [None, None]))) =
   Inr [2, 5, 20]"
  unfolding next_first [OF test_attempt_cube]
  by (simp add: test_E_def h5py_getitem_def clamp_slice_def sliced_shape_def test_array_def)


lemma test_attempt_index_error:
  "attempt test_E (test_iter ''._test.h5'' test_h5 [Some 100, None, None] [None, None, None]) =
     (Raise IndexError,
      (test_iter ''._test.h5'' test_h5 [Some 100, None, None] [None, None, None])\<lparr>rng := 42\<rparr>)"
  by (simp add: attempt_def test_defs)

lemma test_attempt_empty:
  "attempt test_E (test_iter ''empty.h5'' empty_h5 [Some 100] [None]) =
     (Raise (ValueError Empty_choice), test_iter ''empty.h5'' empty_h5 [Some 100] [None])"
  by (simp add: attempt_def test_defs)

lemma test_attempt_pin3:
  "attempt test_E (test_iter ''._test.h5'' test_h5 [None, Some 5] [Some 3, None]) =
     (Slice (test_array [15, 20]) [(3, 18), (10, 15)],
      (test_iter ''._test.h5'' test_h5 [None, Some 5] [Some 3, None])\<lparr>rng := 43\<rparr>)"
  by (simp add: attempt_def test_defs)


section \<open>The claims\<close>

text \<open>
  C1 (as amended). \<^verbatim>\<open>__init__\<close> compares no lengths and raises no error for a position
  tuple: construction with a position tuple \<open>p\<close> succeeds or fails exactly as construction
  with any other or with none does (on opening the file, on seeding the random source),
  and when it succeeds the iterator is the same but for \<open>pos\<close>, which is \<open>p\<close> as given,
  whatever its length.
\<close>

theorem init_stores_pos_unchecked:
  "Hdf5Iterator_init E path shp (Some p) seed =
     map_sum id (pos_update (\<lambda>_. p)) (Hdf5Iterator_init E path shp q seed)"
  by (simp add: Hdf5Iterator_init_def split: sum.splits)

text \<open>
  C1 as stated fails: a shape of length 2 with a position tuple of length 1 is accepted.
\<close>

theorem init_pos_mismatch_accepted:
  "Hdf5Iterator_init test_E ''._test.h5'' [Some 2, Some 5] (Some [None]) 41 =
     Inr \<lparr> hdf5_path = ''._test.h5'', h5 = test_h5, h5_groups = [''a'', ''b''],
           h5_items = [''a/0'', ''a/1'', ''b/0''], rng = 41,
           shape = [Some 2, Some 5], pos = [None] \<rparr>"
  by (simp add: Hdf5Iterator_init_def np_RandomState_def test_E_def h5_keys_def
      h5_group_keys_def test_h5_def)

text \<open>
  C2 (as amended). When the catalogue is not empty, every \<open>None\<close> of the requested shape
  falls on a dimension every item has, and some concrete extent \<open>w\<close> of the shape exceeds
  every item's extent on its dimension \<open>j\<close>, \<^verbatim>\<open>__next__\<close> makes exactly 500 passes, each
  drawing one item and failing the bounds check, and then raises the \<^verbatim>\<open>ValueError\<close> of
  its last line to the caller: the state it leaves is the one after 500 draws of an item.
\<close>

theorem too_big_fails_after_500_tries:
  assumes "rng_contract E" and "h5_items s \<noteq> []"
    and "j < length (shape s)" and "shape s ! j = Some w"
    and "every_item
           (\<lambda>have. j < length have \<and> have ! j < w \<and> wildcards_within (shape s) have) s"
  shows "Hdf5Iterator_next E s =
           (Inl (ValueError Failed_to_find_a_slice),
            s\<lparr>rng := draws E (h5_items s) 500 (rng s)\<rparr>) \<and>
         (\<forall>k<500. attempt E (s\<lparr>rng := draws E (h5_items s) k (rng s)\<rparr>) =
            (Continue, s\<lparr>rng := draws E (h5_items s) (Suc k) (rng s)\<rparr>))"
proof
  show "Hdf5Iterator_next E s =
           (Inl (ValueError Failed_to_find_a_slice),
            s\<lparr>rng := draws E (h5_items s) 500 (rng s)\<rparr>)"
    unfolding Hdf5Iterator_next_def num_tries_def using assms by (rule next_loop_too_big)
next
  show "\<forall>k<500. attempt E (s\<lparr>rng := draws E (h5_items s) k (rng s)\<rparr>) =
            (Continue, s\<lparr>rng := draws E (h5_items s) (Suc k) (rng s)\<rparr>)"
  proof (intro allI impI)
    fix k :: nat
    let ?t = "s\<lparr>rng := draws E (h5_items s) k (rng s)\<rparr>"
    from assms have "attempt E ?t = (Continue, ?t\<lparr>rng := snd (choice E (rng ?t) (h5_items ?t))\<rparr>)"
      by (intro attempt_too_big [where j = j and w = w]) simp_all
    then show "attempt E ?t = (Continue, s\<lparr>rng := draws E (h5_items s) (Suc k) (rng s)\<rparr>)"
      by (simp add: draws_def)
  qed
qed

text \<open>
  The shape \<open>(100, None, 7)\<close> on the items of shape \<open>(15, 20)\<close>: the third entry has no
  dimension in the items and is concrete, the zip of the bounds check stops before it.
\<close>

theorem too_big_fails_after_500_tries_witness:
  "rng_contract test_E \<and>
   h5_items (test_iter ''._test.h5'' test_h5 [Some 100, None, Some 7] [None, None, None]) \<noteq> [] \<and>
   0 < length (shape (test_iter ''._test.h5'' test_h5 [Some 100, None, Some 7] [None, None, None])) \<and>
   shape (test_iter ''._test.h5'' test_h5 [Some 100, None, Some 7] [None, None, None]) ! 0 = Some 100 \<and>
   every_item
     (\<lambda>have. 0 < length have \<and> have ! 0 < 100 \<and>
        wildcards_within
          (shape (test_iter ''._test.h5'' test_h5 [Some 100, None, Some 7] [None, None, None])) have)
     (test_iter ''._test.h5'' test_h5 [Some 100, None, Some 7] [None, None, None]) \<and>
   Hdf5Iterator_next test_E (test_iter ''._test.h5'' test_h5 [Some 100, None, Some 7] [None, None, None]) =
     (Inl (ValueError Failed_to_find_a_slice),
      (test_iter ''._test.h5'' test_h5 [Some 100, None, Some 7] [None, None, None])\<lparr>rng := 541\<rparr>)"
proof -
  let ?s = "test_iter ''._test.h5'' test_h5 [Some 100, None, Some 7] [None, None, None]"
  have h1: "h5_items ?s \<noteq> []"
    by (simp add: test_iter_def h5_paths_def test_h5_def)
  have h2: "0 < length (shape ?s)" and h3: "shape ?s ! 0 = Some 100"
    by (simp_all add: test_iter_def)
  have h4: "every_item
     (\<lambda>have. 0 < length have \<and> have ! 0 < 100 \<and> wildcards_within (shape ?s) have) ?s"
    by (simp add: every_item_def wildcards_within_def test_iter_def h5_paths_def h5_getitem_def
        test_h5_def test_array_def)
  from too_big_fails_after_500_tries [OF test_rng_contract h1 h2 h3 h4]
  have "Hdf5Iterator_next test_E ?s =
      (Inl (ValueError Failed_to_find_a_slice), ?s\<lparr>rng := draws test_E (h5_items ?s) 500 (rng ?s)\<rparr>)"
    by (rule conjunct1)
  moreover have "draws test_E (h5_items ?s) 500 (rng ?s) = 541"
    by (simp add: test_draws test_iter_def)
  ultimately show ?thesis using test_rng_contract h1 h2 h3 h4 by simp
qed

text \<open>
  C2 as stated fails. The extent 100 of the shape \<open>(100, None, None)\<close> exceeds the extent
  15 of every item of the file, and the third entry is a \<open>None\<close> on a dimension the items
  of shape \<open>(15, 20)\<close> do not have: the first pass raises \<^verbatim>\<open>IndexError\<close> after one draw.
  On a file without items the condition holds of every item, and the first pass raises
  the \<^verbatim>\<open>ValueError\<close> of \<^verbatim>\<open>choice\<close> with no draw made.
\<close>

theorem too_big_counterexample:
  "h5_items (test_iter ''._test.h5'' test_h5 [Some 100, None, None] [None, None, None]) \<noteq> [] \<and>
   shape (test_iter ''._test.h5'' test_h5 [Some 100, None, None] [None, None, None]) ! 0 = Some 100 \<and>
   every_item (\<lambda>have. 0 < length have \<and> have ! 0 < 100)
     (test_iter ''._test.h5'' test_h5 [Some 100, None, None] [None, None, None]) \<and>
   Hdf5Iterator_next test_E (test_iter ''._test.h5'' test_h5 [Some 100, None, None] [None, None, None]) =
     (Inl IndexError,
      (test_iter ''._test.h5'' test_h5 [Some 100, None, None] [None, None, None])\<lparr>rng := 42\<rparr>) \<and>
   every_item (\<lambda>have. 0 < length have \<and> have ! 0 < 100)
     (test_iter ''empty.h5'' empty_h5 [Some 100] [None]) \<and>
   Hdf5Iterator_next test_E (test_iter ''empty.h5'' empty_h5 [Some 100] [None]) =
     (Inl (ValueError Empty_choice), test_iter ''empty.h5'' empty_h5 [Some 100] [None])"
proof -
  let ?s = "test_iter ''._test.h5'' test_h5 [Some 100, None, None] [None, None, None]"
  let ?e = "test_iter ''empty.h5'' empty_h5 [Some 100] [None]"
  have "h5_items ?s \<noteq> []" by (simp add: test_iter_def h5_paths_def test_h5_def)
  moreover have "shape ?s ! 0 = Some 100" by (simp add: test_iter_def)
  moreover have "every_item (\<lambda>have. 0 < length have \<and> have ! 0 < 100) ?s"
    by (simp add: every_item_def test_iter_def h5_paths_def h5_getitem_def test_h5_def
        test_array_def)
  moreover have "every_item (\<lambda>have. 0 < length have \<and> have ! 0 < 100) ?e"
    by (simp add: every_item_def test_iter_def h5_paths_def empty_h5_def)
  moreover note next_first_raise [OF test_attempt_index_error]
    next_first_raise [OF test_attempt_empty]
  ultimately show ?thesis by (intro conjI)
qed

text \<open>
  C3 (as amended). For a requested shape without \<open>None\<close>, a position tuple of the same
  length, a catalogue that is not empty and whose items all have exactly the dimensions
  of the shape, each extent of the shape at most the item's and each pinned position
  leaving room for it, \<^verbatim>\<open>__next__\<close> returns an array whose shape is the requested shape.
\<close>

theorem concrete_shape_is_returned:
  assumes "rng_contract E" and "store_contract E" and "h5_items s \<noteq> []"
    and "shape s = map Some ws" and "length (pos s) = length ws"
    and "every_item (\<lambda>have. fits (shape s) (pos s) have \<and> length have = length ws) s"
  shows "\<exists>a. fst (Hdf5Iterator_next E s) = Inr a \<and> shape_of a = ws"
proof -
  from assms(4,5) have lp: "length (pos s) = length (shape s)" by simp
  from next_fits [OF assms(1,2,3) lp assms(6)] obtain item slices want a where
    all: "fst (find_slice E s num_tries) = Inr (item, slices) \<and>
           length (shape_of item) = length ws \<and>
           resolve_shape (shape s) (shape_of item) = Inr want \<and>
           length slices = length (shape s) \<and>
           fst (Hdf5Iterator_next E s) = Inr a \<and>
           shape_of a = want @ drop (length (shape s)) (shape_of item) \<and>
           (\<forall>i<length slices. pos s ! i = None \<longrightarrow> fst (slices ! i) + want ! i \<le> shape_of item ! i)"
    by (elim exE) (rule that)
  then have
    nd: "length (shape_of item) = length ws" and
    res: "resolve_shape (shape s) (shape_of item) = Inr want" and
    nx: "fst (Hdf5Iterator_next E s) = Inr a" and
    sh: "shape_of a = want @ drop (length (shape s)) (shape_of item)"
    by simp_all
  from res assms(4) have "want = ws" by (simp add: resolve_shape_concrete)
  with sh nd assms(4) have "shape_of a = ws" by simp
  with nx show ?thesis by blast
qed

theorem concrete_shape_is_returned_witness:
  "rng_contract test_E \<and> store_contract test_E \<and>
   h5_items (test_iter ''._test.h5'' test_h5 [Some 2, Some 5] [None, Some 3]) \<noteq> [] \<and>
   shape (test_iter ''._test.h5'' test_h5 [Some 2, Some 5] [None, Some 3]) = map Some [2, 5] \<and>
   length (pos (test_iter ''._test.h5'' test_h5 [Some 2, Some 5] [None, Some 3])) = length [2, 5 :: nat] \<and>
   every_item
     (\<lambda>have. fits (shape (test_iter ''._test.h5'' test_h5 [Some 2, Some 5] [None, Some 3]))
                (pos (test_iter ''._test.h5'' test_h5 [Some 2, Some 5] [None, Some 3])) have \<and>
             length have = length [2, 5 :: nat])
     (test_iter ''._test.h5'' test_h5 [Some 2, Some 5] [None, Some 3]) \<and>
   (\<exists>a. fst (Hdf5Iterator_next test_E (test_iter ''._test.h5'' test_h5 [Some 2, Some 5] [None, Some 3])) =
          Inr a \<and> shape_of a = [2, 5])"
proof -
  let ?s = "test_iter ''._test.h5'' test_h5 [Some 2, Some 5] [None, Some 3]"
  have h3: "h5_items ?s \<noteq> []"
    by (simp add: test_iter_def h5_paths_def test_h5_def)
  have h4: "shape ?s = map Some [2, 5]" and h5: "length (pos ?s) = length [2, 5 :: nat]"
    by (simp_all add: test_iter_def)
  have h6: "every_item (\<lambda>have. fits (shape ?s) (pos ?s) have \<and> length have = length [2, 5 :: nat]) ?s"
    by (simp add: every_item_def fits_def test_iter_def h5_paths_def h5_getitem_def test_h5_def
        test_array_def)
  from concrete_shape_is_returned [OF test_rng_contract test_store_contract h3 h4 h5 h6]
    test_rng_contract test_store_contract h3 h4 h5 h6
  show ?thesis by (intro conjI)
qed

text \<open>
  C3 as stated fails on an item with more dimensions than the shape: the shape \<open>(2, 5)\<close>
  has no \<open>None\<close> and fits the item of shape \<open>(10, 15, 20)\<close>, and the array returned has
  shape \<open>(2, 5, 20)\<close>.
\<close>

theorem concrete_shape_counterexample:
  "list_all (\<lambda>dim. dim \<noteq> None) (shape (test_iter ''cube.h5'' cube_h5 [Some 2, Some 5] [None, None])) \<and>
   every_item (\<lambda>have. 2 \<le> have ! 0 \<and> 5 \<le> have ! 1)
     (test_iter ''cube.h5'' cube_h5 [Some 2, Some 5] [None, None]) \<and>
   map_sum id shape_of
     (fst (Hdf5Iterator_next test_E (test_iter ''cube.h5'' cube_h5 [Some 2, Some 5] [None, None]))) =
     Inr [2, 5, 20] \<and>
   [2, 5, 20] \<noteq> [2, 5 :: nat]"
proof -
  let ?s = "test_iter ''cube.h5'' cube_h5 [Some 2, Some 5] [None, None]"
  have "list_all (\<lambda>dim. dim \<noteq> None) (shape ?s)" by (simp add: test_iter_def)
  moreover have "every_item (\<lambda>have. 2 \<le> have ! 0 \<and> 5 \<le> have ! 1) ?s"
    by (simp add: every_item_def test_iter_def h5_paths_def h5_getitem_def cube_h5_def
        test_array_def)
  ultimately show ?thesis using test_next_cube by simp
qed

text \<open>
  C4 (as amended). Whenever \<^verbatim>\<open>__next__\<close> returns a slice, it is the read of the item
  chosen on the successful pass (the dataset under the key \<^verbatim>\<open>choice\<close> drew), and every
  \<open>None\<close> of the requested shape was resolved to that item's extent on the same dimension.
  On such a dimension the slice asked for has that length, and where the position is
  \<open>None\<close> or 0, or the position tuple does not reach the dimension, the returned array has
  the item's extent.
\<close>

theorem wildcard_extent_is_item_extent:
  assumes "rng_contract E" and "dimensionwise_read E"
    and "fst (Hdf5Iterator_next E s) = Inr a"
  shows "\<exists>item slices want.
           fst (find_slice E s num_tries) = Inr (item, slices) \<and>
           (\<exists>r. h5_getitem (h5 s) (fst (choice E r (h5_items s))) = Some item) \<and>
           getitem E item slices = Inr a \<and>
           resolve_shape (shape s) (shape_of item) = Inr want \<and>
           (\<forall>j<length (shape s). shape s ! j = None \<longrightarrow>
              j < length (shape_of item) \<and>
              want ! j = shape_of item ! j \<and>
              (j < length slices \<longrightarrow> snd (slices ! j) - fst (slices ! j) = shape_of item ! j) \<and>
              ((j < length (pos s) \<longrightarrow> pos s ! j = None \<or> pos s ! j = Some 0) \<longrightarrow>
                 shape_of a ! j = shape_of item ! j))"
proof -
  from assms(3) obtain item slices where
    fs: "fst (find_slice E s num_tries) = Inr (item, slices)" and
    rd: "getitem E item slices = Inr a"
    unfolding next_find_slice by (auto split: sum.splits)
  from find_slice_slices [OF fs] obtain want where
    all: "(\<exists>r. h5_getitem (h5 s) (fst (choice E r (h5_items s))) = Some item) \<and>
           resolve_shape (shape s) (shape_of item) = Inr want \<and>
           length want = length (shape s) \<and>
           length slices = min (length (shape_of item)) (min (length (shape s)) (length (pos s))) \<and>
           (\<forall>i<length slices.
              snd (slices ! i) = fst (slices ! i) + want ! i \<and>
              want ! i \<le> shape_of item ! i \<and>
              (\<forall>q. pos s ! i = Some q \<longrightarrow> fst (slices ! i) = q) \<and>
              (pos s ! i = None \<longrightarrow> rng_contract E \<longrightarrow>
                 fst (slices ! i) + want ! i \<le> shape_of item ! i))"
    by (elim exE) (rule that)
  then have
    key: "\<exists>r. h5_getitem (h5 s) (fst (choice E r (h5_items s))) = Some item" and
    res: "resolve_shape (shape s) (shape_of item) = Inr want" and
    len: "length slices = min (length (shape_of item)) (min (length (shape s)) (length (pos s)))"
    by simp_all
  from all have nth:
    "snd (slices ! i) = fst (slices ! i) + want ! i \<and>
     (\<forall>q. pos s ! i = Some q \<longrightarrow> fst (slices ! i) = q) \<and>
     (pos s ! i = None \<longrightarrow> fst (slices ! i) + want ! i \<le> shape_of item ! i)"
    if "i < length slices" for i
    using that assms(1) by simp
  from assms(2) rd have
    dim: "\<forall>i<length (shape_of item).
           (i < length slices \<longrightarrow>
              fst (slices ! i) \<le> snd (slices ! i) \<longrightarrow> snd (slices ! i) \<le> shape_of item ! i \<longrightarrow>
              shape_of a ! i = snd (slices ! i) - fst (slices ! i)) \<and>
           (length slices \<le> i \<longrightarrow> shape_of a ! i = shape_of item ! i)"
    unfolding dimensionwise_read_def by blast
  have "\<forall>j<length (shape s). shape s ! j = None \<longrightarrow>
              j < length (shape_of item) \<and>
              want ! j = shape_of item ! j \<and>
              (j < length slices \<longrightarrow> snd (slices ! j) - fst (slices ! j) = shape_of item ! j) \<and>
              ((j < length (pos s) \<longrightarrow> pos s ! j = None \<or> pos s ! j = Some 0) \<longrightarrow>
                 shape_of a ! j = shape_of item ! j)"
  proof (intro allI impI)
    fix j assume j: "j < length (shape s)" and wild: "shape s ! j = None"
    from resolve_shape_Inr(3) [OF res j wild] have jl: "j < length (shape_of item)" .
    from resolve_shape_Inr(2) [OF res j] wild have w: "want ! j = shape_of item ! j" by simp
    have sl: "snd (slices ! j) - fst (slices ! j) = shape_of item ! j" if "j < length slices"
      using nth [OF that] w by simp
    have sample: "shape_of a ! j = shape_of item ! j"
      if g: "j < length (pos s) \<longrightarrow> pos s ! j = None \<or> pos s ! j = Some 0"
    proof (cases "j < length slices")
      case True
      with len have "j < length (pos s)" by simp
      with g have "pos s ! j = None \<or> pos s ! j = Some 0" by simp
      with nth [OF True] w have st: "fst (slices ! j) = 0" by auto
      with nth [OF True] w have sn: "snd (slices ! j) = shape_of item ! j" by simp
      from dim jl True st sn have "shape_of a ! j = snd (slices ! j) - fst (slices ! j)" by simp
      with st sn show ?thesis by simp
    next
      case False
      with dim jl show ?thesis by simp
    qed
    from jl w sl sample
    show "j < length (shape_of item) \<and>
              want ! j = shape_of item ! j \<and>
              (j < length slices \<longrightarrow> snd (slices ! j) - fst (slices ! j) = shape_of item ! j) \<and>
              ((j < length (pos s) \<longrightarrow> pos s ! j = None \<or> pos s ! j = Some 0) \<longrightarrow>
                 shape_of a ! j = shape_of item ! j)"
      by blast
  qed
  with fs key rd res
  have "fst (find_slice E s num_tries) = Inr (item, slices) \<and>
           (\<exists>r. h5_getitem (h5 s) (fst (choice E r (h5_items s))) = Some item) \<and>
           getitem E item slices = Inr a \<and>
           resolve_shape (shape s) (shape_of item) = Inr want \<and>
           (\<forall>j<length (shape s). shape s ! j = None \<longrightarrow>
              j < length (shape_of item) \<and>
              want ! j = shape_of item ! j \<and>
              (j < length slices \<longrightarrow> snd (slices ! j) - fst (slices ! j) = shape_of item ! j) \<and>
              ((j < length (pos s) \<longrightarrow> pos s ! j = None \<or> pos s ! j = Some 0) \<longrightarrow>
                 shape_of a ! j = shape_of item ! j))"
    by (intro conjI)
  then show ?thesis by (intro exI)
qed

theorem wildcard_extent_is_item_extent_witness:
  "rng_contract test_E \<and> dimensionwise_read test_E \<and>
   (\<exists>a item slices want.
      fst (Hdf5Iterator_next test_E (test_iter ''._test.h5'' test_h5 [Some 2, None] [None, None])) =
        Inr a \<and>
      shape_of a = [2, 20] \<and>
      fst (find_slice test_E (test_iter ''._test.h5'' test_h5 [Some 2, None] [None, None]) num_tries) =
        Inr (item, slices) \<and>
      getitem test_E item slices = Inr a \<and>
      resolve_shape (shape (test_iter ''._test.h5'' test_h5 [Some 2, None] [None, None]))
        (shape_of item) = Inr want)"
proof -
  let ?s = "test_iter ''._test.h5'' test_h5 [Some 2, None] [None, None]"
  obtain a where h: "fst (Hdf5Iterator_next test_E ?s) = Inr a" and sh: "shape_of a = [2, 20]"
    unfolding next_first [OF test_attempt_2_wild]
    by (simp add: test_E_def h5py_getitem_def clamp_slice_def sliced_shape_def test_array_def)
  from wildcard_extent_is_item_extent [OF test_rng_contract test_dimensionwise_read h] h sh
  have "\<exists>a item slices want.
      fst (Hdf5Iterator_next test_E ?s) = Inr a \<and>
      shape_of a = [2, 20] \<and>
      fst (find_slice test_E ?s num_tries) = Inr (item, slices) \<and>
      getitem test_E item slices = Inr a \<and>
      resolve_shape (shape ?s) (shape_of item) = Inr want"
    by blast
  with test_rng_contract test_dimensionwise_read show ?thesis by (intro conjI)
qed

text \<open>
  C4 as stated fails on a \<open>None\<close> dimension with a pinned position that is not 0. For the
  shape \<open>(None, 5)\<close> and the positions \<open>(3, None)\<close> the item chosen has extent 15 on the
  first dimension, the slice asked for is \<open>(3, 18)\<close>, the read cuts it to the item, and
  the array returned has extent 12 there.
\<close>

theorem wildcard_extent_counterexample:
  "shape (test_iter ''._test.h5'' test_h5 [None, Some 5] [Some 3, None]) ! 0 = None \<and>
   fst (find_slice test_E (test_iter ''._test.h5'' test_h5 [None, Some 5] [Some 3, None]) num_tries) =
     Inr (test_array [15, 20], [(3, 18), (10, 15)]) \<and>
   shape_of (test_array [15, 20]) ! 0 = 15 \<and>
   map_sum id shape_of
     (fst (Hdf5Iterator_next test_E (test_iter ''._test.h5'' test_h5 [None, Some 5] [Some 3, None]))) =
     Inr [12, 5]"
proof -
  let ?s = "test_iter ''._test.h5'' test_h5 [None, Some 5] [Some 3, None]"
  have "shape ?s ! 0 = None" by (simp add: test_iter_def)
  moreover have "fst (find_slice test_E ?s num_tries) =
      Inr (test_array [15, 20], [(3, 18), (10, 15)])"
    using find_slice_first [OF test_attempt_pin3] by simp
  moreover have "shape_of (test_array [15, 20]) ! 0 = 15" by (simp add: test_array_def)
  moreover have "map_sum id shape_of (fst (Hdf5Iterator_next test_E ?s)) = Inr [12, 5]"
    unfolding next_first [OF test_attempt_pin3]
    by (simp add: test_E_def h5py_getitem_def clamp_slice_def sliced_shape_def test_array_def)
  ultimately show ?thesis by (intro conjI)
qed

text \<open>
  C5. With a position tuple of \<open>None\<close>s only, \<^verbatim>\<open>randint\<close> is never called out of its
  range (no \<^verbatim>\<open>ValueError\<close> from it, also when the wanted extent equals the item's), and
  on every dimension sliced the start drawn satisfies \<open>start \<le> have - want\<close> and
  \<open>start + want \<le> have\<close>, the slice being \<open>(start, start + want)\<close>; where the wanted
  extent equals the item's the start is 0.
\<close>

theorem wildcard_starts_in_range:
  assumes "rng_contract E" and "list_all (\<lambda>p. p = None) (pos s)"
  shows "fst (Hdf5Iterator_next E s) =
           (case fst (find_slice E s num_tries) of
              Inl e \<Rightarrow> Inl e
            | Inr (item, slices) \<Rightarrow> getitem E item slices) \<and>
         fst (find_slice E s num_tries) \<noteq> Inl (ValueError Low_ge_high) \<and>
         (\<forall>item slices. fst (find_slice E s num_tries) = Inr (item, slices) \<longrightarrow>
            (\<exists>want. resolve_shape (shape s) (shape_of item) = Inr want \<and>
               (\<forall>i<length slices.
                  snd (slices ! i) = fst (slices ! i) + want ! i \<and>
                  fst (slices ! i) \<le> shape_of item ! i - want ! i \<and>
                  fst (slices ! i) + want ! i \<le> shape_of item ! i \<and>
                  (want ! i = shape_of item ! i \<longrightarrow> fst (slices ! i) = 0))))"
proof (intro conjI allI impI)
  show "fst (Hdf5Iterator_next E s) =
           (case fst (find_slice E s num_tries) of
              Inl e \<Rightarrow> Inl e
            | Inr (item, slices) \<Rightarrow> getitem E item slices)"
    by (rule next_find_slice)
next
  show "fst (find_slice E s num_tries) \<noteq> Inl (ValueError Low_ge_high)"
  proof
    assume "fst (find_slice E s num_tries) = Inl (ValueError Low_ge_high)"
    then obtain s' where "find_slice E s num_tries = (Inl (ValueError Low_ge_high), s')"
      by (cases "find_slice E s num_tries") simp
    from find_slice_Inl [OF this] show False by simp
  qed
next
  fix item slices
  assume "fst (find_slice E s num_tries) = Inr (item, slices)"
  from find_slice_slices [OF this] obtain want where
    res: "resolve_shape (shape s) (shape_of item) = Inr want" and
    len: "length slices = min (length (shape_of item)) (min (length (shape s)) (length (pos s)))" and
    nth: "\<And>i. i < length slices \<Longrightarrow>
              snd (slices ! i) = fst (slices ! i) + want ! i \<and>
              (pos s ! i = None \<longrightarrow> rng_contract E \<longrightarrow>
                 fst (slices ! i) + want ! i \<le> shape_of item ! i)"
    by blast
  have "\<forall>i<length slices.
                  snd (slices ! i) = fst (slices ! i) + want ! i \<and>
                  fst (slices ! i) \<le> shape_of item ! i - want ! i \<and>
                  fst (slices ! i) + want ! i \<le> shape_of item ! i \<and>
                  (want ! i = shape_of item ! i \<longrightarrow> fst (slices ! i) = 0)"
  proof (intro allI impI)
    fix i assume i: "i < length slices"
    with len have "i < length (pos s)" by simp
    with assms(2) have "pos s ! i = None" by (simp add: list_all_length)
    with nth [OF i] assms(1)
    have "snd (slices ! i) = fst (slices ! i) + want ! i"
      and "fst (slices ! i) + want ! i \<le> shape_of item ! i" by simp_all
    then show "snd (slices ! i) = fst (slices ! i) + want ! i \<and>
                  fst (slices ! i) \<le> shape_of item ! i - want ! i \<and>
                  fst (slices ! i) + want ! i \<le> shape_of item ! i \<and>
                  (want ! i = shape_of item ! i \<longrightarrow> fst (slices ! i) = 0)"
      by auto
  qed
  with res show "\<exists>want. resolve_shape (shape s) (shape_of item) = Inr want \<and>
               (\<forall>i<length slices.
                  snd (slices ! i) = fst (slices ! i) + want ! i \<and>
                  fst (slices ! i) \<le> shape_of item ! i - want ! i \<and>
                  fst (slices ! i) + want ! i \<le> shape_of item ! i \<and>
                  (want ! i = shape_of item ! i \<longrightarrow> fst (slices ! i) = 0))"
    by blast
qed

theorem wildcard_starts_in_range_witness:
  "rng_contract test_E \<and>
   list_all (\<lambda>p. p = None) (pos (test_iter ''._test.h5'' test_h5 [Some 2, None] [None, None])) \<and>
   fst (find_slice test_E (test_iter ''._test.h5'' test_h5 [Some 2, None] [None, None]) num_tries) =
     Inr (test_array [15, 20], [(0, 2), (0, 20)]) \<and>
   fst (find_slice test_E (test_iter ''._test.h5'' test_h5 [Some 2, None] [None, None]) num_tries) \<noteq>
     Inl (ValueError Low_ge_high)"
proof -
  let ?s = "test_iter ''._test.h5'' test_h5 [Some 2, None] [None, None]"
  have h: "list_all (\<lambda>p. p = None) (pos ?s)" by (simp add: test_iter_def)
  have "fst (find_slice test_E ?s num_tries) = Inr (test_array [15, 20], [(0, 2), (0, 20)])"
    using find_slice_first [OF test_attempt_2_wild] by simp
  with wildcard_starts_in_range [OF test_rng_contract h] test_rng_contract h
  show ?thesis by blast
qed

text \<open>
  C6 (as amended). On a dimension with a pinned position \<open>q\<close> the slice is
  \<open>(q, q + want)\<close>, whatever \<open>q\<close> is, and the pinned values are not looked at before the
  read: with other values at the pinned places the call draws the same numbers, fails or
  reaches the read alike, and reads from the same item. The result of \<^verbatim>\<open>__next__\<close> is
  whatever the read of the chosen slices gives, unchanged: an exception if the read
  raises one, the array it returns otherwise.
\<close>

theorem pinned_position_unchecked:
  "fst (Hdf5Iterator_next E s) =
     (case fst (find_slice E s num_tries) of
        Inl e \<Rightarrow> Inl e
      | Inr (item, slices) \<Rightarrow> getitem E item slices) \<and>
   (\<forall>item slices. fst (find_slice E s num_tries) = Inr (item, slices) \<longrightarrow>
      (\<exists>want. resolve_shape (shape s) (shape_of item) = Inr want \<and>
         (\<forall>i<length slices. \<forall>q. pos s ! i = Some q \<longrightarrow> slices ! i = (q, q + want ! i)))) \<and>
   (\<forall>ps. map (\<lambda>p. p = None) ps = map (\<lambda>p. p = None) (pos s) \<longrightarrow>
      map_prod (map_sum id fst) rng (find_slice E (s\<lparr>pos := ps\<rparr>) num_tries) =
      map_prod (map_sum id fst) rng (find_slice E s num_tries))"
proof (intro conjI allI impI)
  show "fst (Hdf5Iterator_next E s) =
     (case fst (find_slice E s num_tries) of
        Inl e \<Rightarrow> Inl e
      | Inr (item, slices) \<Rightarrow> getitem E item slices)"
    by (rule next_find_slice)
next
  fix item slices
  assume "fst (find_slice E s num_tries) = Inr (item, slices)"
  from find_slice_slices [OF this] obtain want where
    res: "resolve_shape (shape s) (shape_of item) = Inr want" and
    nth: "\<And>i. i < length slices \<Longrightarrow>
              snd (slices ! i) = fst (slices ! i) + want ! i \<and>
              (\<forall>q. pos s ! i = Some q \<longrightarrow> fst (slices ! i) = q)"
    by blast
  have "\<forall>i<length slices. \<forall>q. pos s ! i = Some q \<longrightarrow> slices ! i = (q, q + want ! i)"
  proof (intro allI impI)
    fix i q assume "i < length slices" "pos s ! i = Some q"
    with nth [of i] have "fst (slices ! i) = q" "snd (slices ! i) = q + want ! i" by auto
    then show "slices ! i = (q, q + want ! i)" by (cases "slices ! i") simp
  qed
  with res show "\<exists>want. resolve_shape (shape s) (shape_of item) = Inr want \<and>
         (\<forall>i<length slices. \<forall>q. pos s ! i = Some q \<longrightarrow> slices ! i = (q, q + want ! i))"
    by blast
next
  fix ps :: "nat option list"
  assume "map (\<lambda>p. p = None) ps = map (\<lambda>p. p = None) (pos s)"
  then show "map_prod (map_sum id fst) rng (find_slice E (s\<lparr>pos := ps\<rparr>) num_tries) =
      map_prod (map_sum id fst) rng (find_slice E s num_tries)"
    by (rule find_slice_pins)
qed

theorem pinned_position_unchecked_witness:
  "fst (find_slice test_E (test_iter ''._test.h5'' test_h5 [Some 2, Some 5] [Some 14, None])
         num_tries) = Inr (test_array [15, 20], [(14, 16), (10, 15)]) \<and>
   fst (Hdf5Iterator_next test_E (test_iter ''._test.h5'' test_h5 [Some 2, Some 5] [Some 14, None])) =
     getitem test_E (test_array [15, 20]) [(14, 16), (10, 15)]"
proof -
  let ?s = "test_iter ''._test.h5'' test_h5 [Some 2, Some 5] [Some 14, None]"
  have f: "fst (find_slice test_E ?s num_tries) = Inr (test_array [15, 20], [(14, 16), (10, 15)])"
    using find_slice_first [OF test_attempt_pinned] by simp
  from pinned_position_unchecked [of test_E ?s]
  have "fst (Hdf5Iterator_next test_E ?s) =
     (case fst (find_slice test_E ?s num_tries) of
        Inl e \<Rightarrow> Inl e
      | Inr (item, slices) \<Rightarrow> getitem test_E item slices)"
    by (rule conjunct1)
  with f show ?thesis by simp
qed

text \<open>
  C6 as stated fails in its last clause. A pinned position 14 with extent 2 on a
  dimension of extent 15 is out of range; the slice \<open>(14, 16)\<close> goes to the read as it is,
  the read cuts it to the item, and the call returns an array of shape \<open>(1, 5)\<close>: no
  exception surfaces.
\<close>

theorem pinned_position_counterexample:
  "pos (test_iter ''._test.h5'' test_h5 [Some 2, Some 5] [Some 14, None]) ! 0 = Some 14 \<and>
   fst (find_slice test_E (test_iter ''._test.h5'' test_h5 [Some 2, Some 5] [Some 14, None])
         num_tries) = Inr (test_array [15, 20], [(14, 16), (10, 15)]) \<and>
   shape_of (test_array [15, 20]) ! 0 < 14 + 2 \<and>
   map_sum id shape_of
     (fst (Hdf5Iterator_next test_E (test_iter ''._test.h5'' test_h5 [Some 2, Some 5] [Some 14, None]))) =
     Inr [1, 5]"
proof -
  let ?s = "test_iter ''._test.h5'' test_h5 [Some 2, Some 5] [Some 14, None]"
  have "pos ?s ! 0 = Some 14" by (simp add: test_iter_def)
  moreover have "fst (find_slice test_E ?s num_tries) =
      Inr (test_array [15, 20], [(14, 16), (10, 15)])"
    using find_slice_first [OF test_attempt_pinned] by simp
  moreover have "shape_of (test_array [15, 20]) ! 0 < 14 + 2" by (simp add: test_array_def)
  moreover have "map_sum id shape_of (fst (Hdf5Iterator_next test_E ?s)) = Inr [1, 5]"
    unfolding next_first [OF test_attempt_pinned]
    by (simp add: test_E_def h5py_getitem_def clamp_slice_def sliced_shape_def test_array_def)
  ultimately show ?thesis by (intro conjI)
qed




text \<open>
  C8. Two iterators built on files of the same contents with the same seed, shape and
  position tuple return the same results, call after call: the random source is an
  attribute of the instance, seeded once by \<^verbatim>\<open>__init__\<close>.
\<close>

theorem same_seed_same_samples:
  assumes "Hdf5Iterator_init E path1 shp p seed = Inr s1"
    and "Hdf5Iterator_init E path2 shp p seed = Inr s2"
    and "h5 s1 = h5 s2"
  shows "samples E s1 n = samples E s2 n"
proof -
  from assms have "s2 = s1\<lparr>hdf5_path := path2\<rparr>"
    by (auto simp: Hdf5Iterator_init_def split: sum.splits)
  then show ?thesis by (simp add: samples_path)
qed

theorem same_seed_same_samples_witness:
  "Hdf5Iterator_init test_E ''._test.h5'' [Some 2, None] None 41 =
     Inr (test_iter ''._test.h5'' test_h5 [Some 2, None] [None, None]) \<and>
   Hdf5Iterator_init test_E ''copy.h5'' [Some 2, None] None 41 =
     Inr (test_iter ''copy.h5'' test_h5 [Some 2, None] [None, None]) \<and>
   h5 (test_iter ''._test.h5'' test_h5 [Some 2, None] [None, None]) =
     h5 (test_iter ''copy.h5'' test_h5 [Some 2, None] [None, None]) \<and>
   samples test_E (test_iter ''._test.h5'' test_h5 [Some 2, None] [None, None]) 3 =
     samples test_E (test_iter ''copy.h5'' test_h5 [Some 2, None] [None, None]) 3"
proof -
  have h1: "Hdf5Iterator_init test_E ''._test.h5'' [Some 2, None] None 41 =
     Inr (test_iter ''._test.h5'' test_h5 [Some 2, None] [None, None])"
    by (simp add: test_init)
  have h2: "Hdf5Iterator_init test_E ''copy.h5'' [Some 2, None] None 41 =
     Inr (test_iter ''copy.h5'' test_h5 [Some 2, None] [None, None])"
    by (simp add: test_init)
  have h3: "h5 (test_iter ''._test.h5'' test_h5 [Some 2, None] [None, None]) =
     h5 (test_iter ''copy.h5'' test_h5 [Some 2, None] [None, None])"
    by (simp add: test_iter_def)
  from same_seed_same_samples [OF h1 h2 h3, of 3] h1 h2 h3 show ?thesis by blast
qed

text \<open>
  C9. A call of \<^verbatim>\<open>__next__\<close>, whether it returns a slice or raises, changes nothing of
  the iterator but the random source: the path, the file, the groups, the item catalogue,
  the shape and the position tuple are as before.
\<close>

theorem next_frame:
  "hdf5_path (snd (Hdf5Iterator_next E s)) = hdf5_path s \<and>
   h5 (snd (Hdf5Iterator_next E s)) = h5 s \<and>
   h5_groups (snd (Hdf5Iterator_next E s)) = h5_groups s \<and>
   h5_items (snd (Hdf5Iterator_next E s)) = h5_items s \<and>
   shape (snd (Hdf5Iterator_next E s)) = shape s \<and>
   pos (snd (Hdf5Iterator_next E s)) = pos s \<and>
   snd (Hdf5Iterator_next E s) = s\<lparr>rng := rng (snd (Hdf5Iterator_next E s))\<rparr>"
proof -
  have eq: "snd (Hdf5Iterator_next E s) = s\<lparr>rng := rng (snd (Hdf5Iterator_next E s))\<rparr>"
    unfolding Hdf5Iterator_next_def by (rule next_loop_frame)
  have "hdf5_path (snd (Hdf5Iterator_next E s)) = hdf5_path s" by (subst eq) simp
  moreover have "h5 (snd (Hdf5Iterator_next E s)) = h5 s" by (subst eq) simp
  moreover have "h5_groups (snd (Hdf5Iterator_next E s)) = h5_groups s" by (subst eq) simp
  moreover have "h5_items (snd (Hdf5Iterator_next E s)) = h5_items s" by (subst eq) simp
  moreover have "shape (snd (Hdf5Iterator_next E s)) = shape s" by (subst eq) simp
  moreover have "pos (snd (Hdf5Iterator_next E s)) = pos s" by (subst eq) simp
  ultimately show ?thesis using eq by simp
qed



end
